theory Spec2Isabelle
  imports Main "HOL-Library.AList"
begin

section \<open>Minipack: a shallow embedding of \<^verbatim>\<open>src/minipack.js\<close>\<close>

text \<open>
  The bundler reads an entry file, follows every import it finds, gives each file it
  reads a number from the module-level counter \<^verbatim>\<open>ID\<close>, and prints one self-invoking
  function holding all modules. The embedding below follows the source function by
  function. What lies outside the repository (the file system, the Babylon parser, the
  Babel transformer, \<^verbatim>\<open>JSON.stringify\<close>, the JavaScript engine that later runs the
  compiled text) is a parameter; Node's \<^verbatim>\<open>path.dirname\<close> and \<^verbatim>\<open>path.join\<close> are modelled
  after their POSIX implementation.

  JavaScript strings are modelled as \<^typ>\<open>string\<close>, the counter as \<^typ>\<open>nat\<close> (the
  source's double-precision number stops being exact only beyond \<open>2^53\<close> assets).
\<close>

subsection \<open>Node's \<^verbatim>\<open>path\<close> module (POSIX flavour)\<close>

text \<open>
  \<^verbatim>\<open>path.dirname\<close> scans the path from its last character down to index 1, skipping
  trailing slashes, and cuts the path at the first slash it meets after a non-slash
  character.
\<close>

fun dirname_scan :: "string \<Rightarrow> nat \<Rightarrow> bool \<Rightarrow> nat option" where
  "dirname_scan p 0 matchedSlash = None"
| "dirname_scan p (Suc i) matchedSlash =
     (if p ! Suc i = CHR ''/''
      then (if \<not> matchedSlash then Some (Suc i) else dirname_scan p i matchedSlash)
      else dirname_scan p i False)"

definition path_dirname :: "string \<Rightarrow> string" where
  "path_dirname p =
     (if p = [] then ''.''
      else let hasRoot = (hd p = CHR ''/'') in
        case dirname_scan p (length p - 1) True of
          None \<Rightarrow> (if hasRoot then ''/'' else ''.'')
        | Some e \<Rightarrow> (if hasRoot \<and> e = 1 then ''//'' else take e p))"

text \<open>
  \<^verbatim>\<open>path.join\<close> glues its non-empty arguments with a slash and normalises the result:
  empty segments and \<^verbatim>\<open>.\<close> disappear, \<^verbatim>\<open>..\<close> removes the segment before it (or stays,
  in a relative path that climbs above its start).
\<close>

fun split_slash :: "string \<Rightarrow> string \<Rightarrow> string list" where
  "split_slash cur [] = [cur]"
| "split_slash cur (c # cs) =
     (if c = CHR ''/'' then cur # split_slash [] cs else split_slash (cur @ [c]) cs)"

fun normalizeString :: "bool \<Rightarrow> string list \<Rightarrow> string list \<Rightarrow> string list" where
  "normalizeString allowAboveRoot res [] = res"
| "normalizeString allowAboveRoot res (seg # segs) =
     (if seg = [] \<or> seg = ''.'' then normalizeString allowAboveRoot res segs
      else if seg = ''..'' then
        (if res \<noteq> [] \<and> last res \<noteq> ''..''
         then normalizeString allowAboveRoot (butlast res) segs
         else if allowAboveRoot then normalizeString allowAboveRoot (res @ [''..'']) segs
         else normalizeString allowAboveRoot res segs)
      else normalizeString allowAboveRoot (res @ [seg]) segs)"

fun join_slash :: "string list \<Rightarrow> string" where
  "join_slash [] = []"
| "join_slash [s] = s"
| "join_slash (s # t # ss) = s @ ''/'' @ join_slash (t # ss)"

definition path_normalize :: "string \<Rightarrow> string" where
  "path_normalize p =
     (if p = [] then ''.''
      else let isAbsolute = (hd p = CHR ''/'');
               trailingSeparator = (last p = CHR ''/'');
               q = join_slash (normalizeString (\<not> isAbsolute) [] (split_slash [] p))
           in if q = [] then (if isAbsolute then ''/'' else if trailingSeparator then ''./'' else ''.'')
              else (if isAbsolute then ''/'' else []) @ q @ (if trailingSeparator then ''/'' else []))"

definition path_join :: "string \<Rightarrow> string \<Rightarrow> string" where
  "path_join a b =
     (if a = [] \<and> b = [] then ''.''
      else if a = [] then path_normalize b
      else if b = [] then path_normalize a
      else path_normalize (a @ ''/'' @ b))"

subsection \<open>The syntax tree and its traversal\<close>

text \<open>
  Of Babylon's tree the code looks at three things: import declarations (their
  \<^verbatim>\<open>source.value\<close>), call expressions (the callee's \<^verbatim>\<open>name\<close>, the argument list, the
  first argument's \<^verbatim>\<open>type\<close> and \<^verbatim>\<open>value\<close>), and the order in which
  \<^verbatim>\<open>babel-traverse\<close> enters the nodes. Every other node kind is \<open>Other\<close> with its
  children in traversal order. The children of an import declaration (its specifiers and
  its source literal) are never declarations or calls, so the node is a leaf here.
\<close>

datatype node =
    ImportDeclaration string
  | CallExpression node "node list"
  | Identifier string
  | StringLiteral string
  | Other "node list"

text \<open>\<^verbatim>\<open>traverse(ast, visitor)\<close>: depth first, the visitor runs when a node is entered.\<close>

fun traverse :: "(node \<Rightarrow> 'a \<Rightarrow> 'a) \<Rightarrow> node \<Rightarrow> 'a \<Rightarrow> 'a" where
  "traverse visitor (ImportDeclaration s) acc = visitor (ImportDeclaration s) acc"
| "traverse visitor (CallExpression callee args) acc =
     fold (traverse visitor) args
       (traverse visitor callee (visitor (CallExpression callee args) acc))"
| "traverse visitor (Identifier x) acc = visitor (Identifier x) acc"
| "traverse visitor (StringLiteral v) acc = visitor (StringLiteral v) acc"
| "traverse visitor (Other children) acc =
     fold (traverse visitor) children (visitor (Other children) acc)"

subsection \<open>The outside world\<close>

datatype error = ReadError string | ParseError | TransformError

record world =
  readFileSync :: "string \<Rightarrow> string option"
  parse :: "string \<Rightarrow> node option"
  transformFromAst :: "node \<Rightarrow> string option"

subsection \<open>\<^verbatim>\<open>createAsset\<close>\<close>

record asset =
  id :: nat
  filename :: string
  dependencies :: "string list"
  code :: string
  mapping :: "(string \<times> nat) list option"

text \<open>The visitor of \<^verbatim>\<open>createAsset\<close> has one handler, for import declarations.\<close>

fun createAsset_visitor :: "node \<Rightarrow> string list \<Rightarrow> string list" where
  "createAsset_visitor (ImportDeclaration s) deps = deps @ [s]"
| "createAsset_visitor _ deps = deps"

text \<open>
  \<^verbatim>\<open>createAsset(filename)\<close> with the counter \<^verbatim>\<open>ID\<close> passed in and out. The steps keep the
  source's order: read, parse, traverse, take the id and bump the counter, transform.
  An exception of a step is \<open>Inl\<close>. The object returned has no \<^verbatim>\<open>mapping\<close> property yet
  (\<open>None\<close>).
\<close>

definition createAsset :: "world \<Rightarrow> string \<Rightarrow> nat \<Rightarrow> error + asset \<times> nat" where
  "createAsset w fname ID =
     (case readFileSync w fname of
        None \<Rightarrow> Inl (ReadError fname)
      | Some content \<Rightarrow>
          (case parse w content of
             None \<Rightarrow> Inl ParseError
           | Some ast \<Rightarrow>
               (let deps = traverse createAsset_visitor ast [] in
                case transformFromAst w ast of
                  None \<Rightarrow> Inl TransformError
                | Some c \<Rightarrow>
                    Inr (\<lparr>id = ID, filename = fname, dependencies = deps, code = c,
                          mapping = None\<rparr>, ID + 1))))"

subsection \<open>\<^verbatim>\<open>createGraph\<close>\<close>

text \<open>
  \<^verbatim>\<open>obj[key] = n\<close> on a plain object with a number \<open>n\<close>: the key is added at the end or
  its value replaced in place. The key \<^verbatim>\<open>__proto__\<close> is the accessor inherited from
  \<^verbatim>\<open>Object.prototype\<close>, whose setter ignores a number. Where \<open>set_mapping\<close> is used the
  mapping is an object: the loop has set it to \<^verbatim>\<open>{}\<close> at the start of the same
  iteration.
\<close>

definition js_set :: "string \<Rightarrow> nat \<Rightarrow> (string \<times> nat) list \<Rightarrow> (string \<times> nat) list" where
  "js_set k v obj = (if k = ''__proto__'' then obj else AList.update k v obj)"

definition set_mapping :: "string \<Rightarrow> nat \<Rightarrow> asset \<Rightarrow> asset" where
  "set_mapping k v a = a\<lparr>mapping := map_option (js_set k v) (mapping a)\<rparr>"

text \<open>
  The body of \<^verbatim>\<open>asset.dependencies.forEach\<close>, for the asset at index \<open>i\<close> of the queue:
  each relative path is joined to the asset's directory, read by \<^verbatim>\<open>createAsset\<close>,
  entered into the asset's mapping and pushed onto the queue.
\<close>

fun forEach_dependencies ::
  "world \<Rightarrow> string \<Rightarrow> nat \<Rightarrow> string list \<Rightarrow> asset list \<Rightarrow> nat \<Rightarrow> error + asset list \<times> nat" where
  "forEach_dependencies w dirname i [] queue ID = Inr (queue, ID)"
| "forEach_dependencies w dirname i (relativePath # rest) queue ID =
     (let absolutePath = path_join dirname relativePath in
      case createAsset w absolutePath ID of
        Inl e \<Rightarrow> Inl e
      | Inr (child, ID') \<Rightarrow>
          forEach_dependencies w dirname i rest
            (queue[i := set_mapping relativePath (id child) (queue ! i)] @ [child]) ID')"

text \<open>
  The \<^verbatim>\<open>for (const asset of queue)\<close> loop. The array iterator holds an index and
  compares it with the current length at every step, so assets pushed during the loop
  are visited too. A loop that never ends has the value \<open>None\<close>.
\<close>

partial_function (option) queue_loop ::
  "world \<Rightarrow> nat \<Rightarrow> asset list \<Rightarrow> nat \<Rightarrow> (error + asset list \<times> nat) option" where
  "queue_loop w i queue ID =
     (if i < length queue then
        (let queue1 = queue[i := (queue ! i)\<lparr>mapping := Some []\<rparr>];
             dirname = path_dirname (filename (queue1 ! i))
         in case forEach_dependencies w dirname i (dependencies (queue1 ! i)) queue1 ID of
              Inl e \<Rightarrow> Some (Inl e)
            | Inr (queue2, ID2) \<Rightarrow> queue_loop w (i + 1) queue2 ID2)
      else Some (Inr (queue, ID)))"

declare queue_loop.simps [code]

definition createGraph :: "world \<Rightarrow> string \<Rightarrow> nat \<Rightarrow> (error + asset list \<times> nat) option" where
  "createGraph w entry ID =
     (case createAsset w entry ID of
        Inl e \<Rightarrow> Some (Inl e)
      | Inr (mainAsset, ID1) \<Rightarrow> queue_loop w 0 [mainAsset] ID1)"

text \<open>
  The script's own call: \<^verbatim>\<open>let ID = 0\<close> (line 35) is the value of the counter when
  \<^verbatim>\<open>createGraph\<close> is called on line 246.
\<close>

definition ID_initial :: nat where
  "ID_initial = 0"

subsection \<open>\<^verbatim>\<open>bundle\<close>\<close>

text \<open>
  The function \<^verbatim>\<open>bundle\<close> is \<open>bundle_text\<close> here, its own name being a keyword of
  Isabelle. A template literal prints a number in decimal.
\<close>

fun string_of_nat :: "nat \<Rightarrow> string" where
  "string_of_nat n =
     (if n < 10 then [''0123456789'' ! n]
      else string_of_nat (n div 10) @ [''0123456789'' ! (n mod 10)])"

declare string_of_nat.simps [simp del]

text \<open>
  The text added to \<^verbatim>\<open>modules\<close> for one module. \<^verbatim>\<open>JSON.stringify\<close> is the parameter
  \<open>stringify\<close>; it receives the mapping, \<open>None\<close> standing for \<^verbatim>\<open>undefined\<close>.
\<close>

definition module_text :: "((string \<times> nat) list option \<Rightarrow> string) \<Rightarrow> asset \<Rightarrow> string" where
  "module_text stringify md =
     string_of_nat (id md) @ '': [\<newline>'' @
     ''      function (require, module, exports) {\<newline>'' @
     ''        '' @ code md @ ''\<newline>'' @
     ''      },\<newline>'' @
     ''      '' @ stringify (mapping md) @ '',\<newline>'' @
     ''    ],''"

text \<open>The function \<^verbatim>\<open>require\<close> of the loader, as the template spells it.\<close>

definition require_text :: string where
  "require_text =
     ''      function require(id) {\<newline>'' @
     ''        const [fn, mapping] = modules[id];\<newline>'' @
     ''\<newline>'' @
     ''        function localRequire(name) {\<newline>'' @
     ''          return require(mapping[name]);\<newline>'' @
     ''        }\<newline>'' @
     ''\<newline>'' @
     ''        const module = { exports : {} };\<newline>'' @
     ''\<newline>'' @
     ''        fn(localRequire, module, module.exports);\<newline>'' @
     ''\<newline>'' @
     ''        return module.exports;\<newline>'' @
     ''      }\<newline>''"

text \<open>
  \<^verbatim>\<open>graph.forEach\<close> appends one text per module to \<^verbatim>\<open>modules\<close>; the result is the
  template around it.
\<close>

definition bundle_text :: "((string \<times> nat) list option \<Rightarrow> string) \<Rightarrow> asset list \<Rightarrow> string" where
  "bundle_text stringify graph =
     (let modules = fold (\<lambda>md modules. modules @ module_text stringify md) graph []
      in ''\<newline>'' @
         ''    (function(modules) {\<newline>'' @
         require_text @
         ''\<newline>'' @
         ''      require(0);\<newline>'' @
         ''    })({'' @ modules @ ''})\<newline>'' @
         ''  '')"


subsection \<open>The loader inside the bundle\<close>

text \<open>
  The emitted text is a program of its own: a function \<^verbatim>\<open>require\<close> over the object
  \<^verbatim>\<open>modules\<close>, and the call \<^verbatim>\<open>require(0)\<close>. Its embedding needs objects with identity,
  so there is a heap: a list of objects, an object a list of properties, an address an
  index, and allocation appends. The field \<open>invoked\<close> records every call of a module
  function: the id, the code text of the function, and the module object and the exports
  object it was given.
\<close>

type_synonym addr = nat

datatype val = Undefined | Num nat | Str string | Ref addr

record rt =
  heap :: "(string \<times> val) list list"
  invoked :: "(nat \<times> string \<times> addr \<times> addr) list"

text \<open>
  What a module function does, as far as the loader can see: it calls its first
  parameter, creates objects, reads and writes properties (of \<^verbatim>\<open>module\<close>, of
  \<^verbatim>\<open>exports\<close>, of what a \<^verbatim>\<open>require\<close> returned), returns or throws.
\<close>

datatype body =
    Return
  | Throw
  | Require string "val \<Rightarrow> body"
  | NewObject "addr \<Rightarrow> body"
  | GetProp addr string "val \<Rightarrow> body"
  | SetProp addr string val body

primrec run_body :: "(string \<Rightarrow> rt \<Rightarrow> (val \<times> rt) option) \<Rightarrow> body \<Rightarrow> rt \<Rightarrow> rt option" where
  "run_body req Return s = Some s"
| "run_body req Throw s = None"
| "run_body req (Require name k) s =
     (case req name s of None \<Rightarrow> None | Some (v, s') \<Rightarrow> run_body req (k v) s')"
| "run_body req (NewObject k) s = run_body req (k (length (heap s))) (s\<lparr>heap := heap s @ [ [] ]\<rparr>)"
| "run_body req (GetProp a key k) s =
     (if a < length (heap s)
      then run_body req (k (case map_of (heap s ! a) key of None \<Rightarrow> Undefined | Some v \<Rightarrow> v)) s
      else None)"
| "run_body req (SetProp a key v b) s =
     (if a < length (heap s)
      then run_body req b (s\<lparr>heap := (heap s)[a := AList.update key v (heap s ! a)]\<rparr>)
      else None)"

text \<open>
  \<^verbatim>\<open>require(id)\<close>, lines 224 to 236. The registry gives, for an id, the code text of the
  module function and the mapping; \<open>exec\<close> is the engine's reading of a code text as a
  function of the module object and the exports object. \<^verbatim>\<open>modules[id]\<close> of an id that
  is \<^verbatim>\<open>undefined\<close> or absent cannot be destructured and throws. The first argument
  bounds the depth of nested \<^verbatim>\<open>require\<close> calls; a throw and an exhausted bound are both
  \<open>None\<close>.
\<close>

fun require_rt ::
  "(string \<Rightarrow> addr \<Rightarrow> addr \<Rightarrow> body) \<Rightarrow> nat
     \<Rightarrow> (nat \<Rightarrow> (string \<times> (string \<times> nat) list option) option)
     \<Rightarrow> nat option \<Rightarrow> rt \<Rightarrow> (val \<times> rt) option" where
  "require_rt exec 0 modules idx s = None"
| "require_rt exec (Suc n) modules idx s =
     (case idx of None \<Rightarrow> None
      | Some i \<Rightarrow>
        (case modules i of None \<Rightarrow> None
         | Some (fn, mp) \<Rightarrow>
            (let localRequire = (\<lambda>name. case mp of None \<Rightarrow> (\<lambda>s. None)
                                        | Some m \<Rightarrow> require_rt exec n modules (map_of m name));
                 exports = length (heap s);
                 s1 = s\<lparr>heap := heap s @ [ [] ]\<rparr>;
                 module = length (heap s1);
                 s2 = s1\<lparr>heap := heap s1 @ [ [(''exports'', Ref exports)]],
                         invoked := invoked s1 @ [(i, fn, module, exports)]\<rparr>
             in case run_body localRequire (exec fn module exports) s2 of
                  None \<Rightarrow> None
                | Some s3 \<Rightarrow>
                    (if module < length (heap s3)
                     then Some (case map_of (heap s3 ! module) ''exports'' of
                                  None \<Rightarrow> Undefined | Some v \<Rightarrow> v, s3)
                     else None))))"

text \<open>
  The object literal \<^verbatim>\<open>{${modules}}\<close> built from a graph: one property per module, a
  later module replacing an earlier one of the same id.
\<close>

definition modules_of :: "asset list \<Rightarrow> nat \<Rightarrow> (string \<times> (string \<times> nat) list option) option" where
  "modules_of graph = map_of (rev (map (\<lambda>md. (id md, (code md, mapping md))) graph))"

text \<open>Running the bundle is the one call \<^verbatim>\<open>require(0)\<close> of line 238.\<close>

definition run_bundle ::
  "(string \<Rightarrow> addr \<Rightarrow> addr \<Rightarrow> body) \<Rightarrow> nat \<Rightarrow> asset list \<Rightarrow> rt \<Rightarrow> (val \<times> rt) option" where
  "run_bundle exec n graph s = require_rt exec n (modules_of graph) (Some 0) s"

text \<open>
  The parts of one call \<^verbatim>\<open>require(id)\<close>. Before the module function runs, the state has
  two new objects, the \<^verbatim>\<open>exports\<close> object \<^verbatim>\<open>{}\<close> at the old end of the heap and after it
  the \<^verbatim>\<open>module\<close> object holding it, and the call is on record. \<^verbatim>\<open>localRequire(name)\<close> is
  \<^verbatim>\<open>require(mapping[name])\<close>, one level deeper. The call returns \<^verbatim>\<open>module.exports\<close> as the
  body left it.
\<close>

definition enter :: "nat \<Rightarrow> string \<Rightarrow> rt \<Rightarrow> rt" where
  "enter i fn s =
     s\<lparr>heap := heap s @ [ [], [(''exports'', Ref (length (heap s)))] ],
       invoked := invoked s @ [(i, fn, Suc (length (heap s)), length (heap s))]\<rparr>"

definition local_require ::
  "(string \<Rightarrow> addr \<Rightarrow> addr \<Rightarrow> body) \<Rightarrow> nat
     \<Rightarrow> (nat \<Rightarrow> (string \<times> (string \<times> nat) list option) option)
     \<Rightarrow> (string \<times> nat) list option \<Rightarrow> string \<Rightarrow> rt \<Rightarrow> (val \<times> rt) option" where
  "local_require exec n modules mp name =
     (case mp of None \<Rightarrow> (\<lambda>s. None) | Some m \<Rightarrow> require_rt exec n modules (map_of m name))"

definition module_exports :: "rt \<Rightarrow> addr \<Rightarrow> val" where
  "module_exports s m = (case map_of (heap s ! m) ''exports'' of None \<Rightarrow> Undefined | Some v \<Rightarrow> v)"

subsection \<open>The earlier variant \<^verbatim>\<open>createDependencyGraph\<close>\<close>

text \<open>
  The variant kept beside the current file has a second handler, for call expressions:
  a call counts when \<^verbatim>\<open>node.callee.name\<close> is \<^verbatim>\<open>require\<close>, there is one argument and its
  type is \<^verbatim>\<open>StringLiteral\<close>.
\<close>

fun callee_name :: "node \<Rightarrow> string option" where
  "callee_name (Identifier x) = Some x"
| "callee_name _ = None"

fun is_StringLiteral :: "node \<Rightarrow> bool" where
  "is_StringLiteral (StringLiteral v) = True"
| "is_StringLiteral _ = False"

fun literal_value :: "node \<Rightarrow> string" where
  "literal_value (StringLiteral v) = v"
| "literal_value _ = []"

fun createDependencyGraph_visitor :: "node \<Rightarrow> string list \<Rightarrow> string list" where
  "createDependencyGraph_visitor (ImportDeclaration s) deps = deps @ [s]"
| "createDependencyGraph_visitor (CallExpression callee args) deps =
     (let isRequire = (callee_name callee = Some ''require'' \<and> length args = 1 \<and>
                       is_StringLiteral (args ! 0))
      in if isRequire then deps @ [literal_value (args ! 0)] else deps)"
| "createDependencyGraph_visitor _ deps = deps"

subsection \<open>Notions of the specification\<close>

text \<open>
  The nodes of a tree in the order in which \<^verbatim>\<open>traverse\<close> enters them: a node before its
  children, the children in the order of the tree. Import declarations stand in the body
  of the program, which the parser lists in the order of the source text.
\<close>

fun preorder :: "node \<Rightarrow> node list" where
  "preorder (ImportDeclaration s) = [ImportDeclaration s]"
| "preorder (CallExpression callee args) =
     CallExpression callee args # preorder callee @ concat (map preorder args)"
| "preorder (Identifier x) = [Identifier x]"
| "preorder (StringLiteral v) = [StringLiteral v]"
| "preorder (Other children) = Other children # concat (map preorder children)"

text \<open>The specifier of a static import declaration.\<close>

fun import_specifier :: "node \<Rightarrow> string option" where
  "import_specifier (ImportDeclaration s) = Some s"
| "import_specifier _ = None"

text \<open>
  The specifier of a node as the specification counts it: an import declaration, or a
  call of \<^verbatim>\<open>require\<close> with exactly one string literal argument.
\<close>

fun spec_specifier :: "node \<Rightarrow> string option" where
  "spec_specifier (ImportDeclaration s) = Some s"
| "spec_specifier (CallExpression (Identifier f) [StringLiteral v]) =
     (if f = ''require'' then Some v else None)"
| "spec_specifier _ = None"

text \<open>
  How many nodes of a tree the specification counts with a given specifier. This says
  which specifiers are to be collected and how often, and nothing of their order.
\<close>

definition spec_count :: "node \<Rightarrow> string \<Rightarrow> nat" where
  "spec_count ast s = count_list (List.map_filter spec_specifier (preorder ast)) s"

text \<open>
  The import relation of a file system: the import declarations of a file that can be
  read and parsed, each joined to the file's directory. A canonical path is reachable
  when a chain of imports leads from the entry to it.
\<close>

definition imports_of :: "world \<Rightarrow> string \<Rightarrow> string list" where
  "imports_of w p =
     (case readFileSync w p of
        None \<Rightarrow> []
      | Some content \<Rightarrow>
          (case parse w content of
             None \<Rightarrow> []
           | Some ast \<Rightarrow> List.map_filter import_specifier (preorder ast)))"

definition import_edge :: "world \<Rightarrow> string \<Rightarrow> string \<Rightarrow> bool" where
  "import_edge w p p' = (\<exists>r \<in> set (imports_of w p). p' = path_join (path_dirname p) r)"

definition reachable :: "world \<Rightarrow> string \<Rightarrow> string \<Rightarrow> bool" where
  "reachable w entry p = rtranclp (import_edge w) entry p"

text \<open>
  The files in the order in which the queue of \<^verbatim>\<open>createGraph\<close> takes them: the entry,
  then for each file taken the files it imports, appended in the order of its import
  declarations. The number bounds the length of the list, which has no end when imports
  form a cycle; a longer list continues a shorter one.
\<close>

definition children :: "world \<Rightarrow> string \<Rightarrow> string list" where
  "children w p = map (path_join (path_dirname p)) (imports_of w p)"

fun visit_order :: "world \<Rightarrow> nat \<Rightarrow> string list \<Rightarrow> string list" where
  "visit_order w 0 pending = []"
| "visit_order w (Suc n) [] = []"
| "visit_order w (Suc n) (p # pending) = p # visit_order w n (pending @ children w p)"

text \<open>A file fails when \<^verbatim>\<open>createAsset\<close> throws on it: reading, parsing or transforming.\<close>

definition fails :: "world \<Rightarrow> string \<Rightarrow> bool" where
  "fails w p = isl (createAsset w p 0)"

text \<open>The number a text of decimal digits stands for, and the digits themselves.\<close>

definition decimal_value :: "string \<Rightarrow> nat" where
  "decimal_value cs = fold (\<lambda>c n. 10 * n + (of_char c - 48)) cs 0"

text \<open>The number of places of a text at which a given text begins.\<close>

fun occurrences :: "string \<Rightarrow> string \<Rightarrow> nat" where
  "occurrences pat [] = (if pat = [] then 1 else 0)"
| "occurrences pat (c # cs) =
     (if take (length pat) (c # cs) = pat then 1 else 0) + occurrences pat cs"

text \<open>Adding \<open>d\<close> to every id of an asset: its own and those in its mapping.\<close>

definition shift_asset :: "nat \<Rightarrow> asset \<Rightarrow> asset" where
  "shift_asset d a =
     a\<lparr>id := id a + d, mapping := map_option (map (\<lambda>(r, c). (r, c + d))) (mapping a)\<rparr>"

text \<open>The same for the result of \<^verbatim>\<open>createGraph\<close>: the graph and the counter it leaves.\<close>

definition shift_result :: "nat \<Rightarrow> error + asset list \<times> nat \<Rightarrow> error + asset list \<times> nat" where
  "shift_result d r = (case r of Inl e \<Rightarrow> Inl e | Inr (g, k) \<Rightarrow> Inr (map (shift_asset d) g, k + d))"

subsection \<open>Invariants of the queue\<close>

text \<open>
  An asset is the extract of its file: \<^verbatim>\<open>createAsset\<close> on its file name, with its id as
  the counter, gives the asset back (before any mapping is set).
\<close>

definition asset_of :: "world \<Rightarrow> asset \<Rightarrow> bool" where
  "asset_of w a = (createAsset w (filename a) (id a) = Inr (a\<lparr>mapping := None\<rparr>, id a + 1))"

text \<open>The object got from \<open>obj\<close> by assigning a list of key and value pairs in order.\<close>

definition set_all :: "(string \<times> nat) list \<Rightarrow> (string \<times> nat) list \<Rightarrow> (string \<times> nat) list" where
  "set_all kvs obj = fold (\<lambda>(r, c). js_set r c) kvs obj"

text \<open>
  The queue index of the first child of the asset at index \<open>j\<close>: the entry, then the
  children of all assets before it.
\<close>

definition child_base :: "asset list \<Rightarrow> nat \<Rightarrow> nat" where
  "child_base q j = 1 + sum_list (map (\<lambda>a. length (dependencies a)) (take j q))"

text \<open>
  The asset at index \<open>j\<close> has been visited by the loop: its children stand in the queue
  from \<open>child_base q j\<close> on, behind the asset itself, one for each dependency in order,
  each the file the dependency names, and the mapping holds the dependencies assigned to
  the children's ids in that order.
\<close>

definition processed :: "nat \<Rightarrow> asset list \<Rightarrow> nat \<Rightarrow> bool" where
  "processed ID0 q j =
     (let a = q ! j; b = child_base q j; deps = dependencies a in
      j < b \<and>
      mapping a = Some (set_all (zip deps [ID0 + b..<ID0 + b + length deps]) []) \<and>
      (\<forall>n<length deps. b + n < length q \<and>
          filename (q ! (b + n)) = path_join (path_dirname (filename a)) (deps ! n)))"

text \<open>
  The state of the loop at index \<open>i\<close>, for a build of entry \<open>e\<close> that started with the
  counter at \<open>ID0\<close>.
\<close>

definition graph_inv :: "world \<Rightarrow> string \<Rightarrow> nat \<Rightarrow> nat \<Rightarrow> asset list \<Rightarrow> nat \<Rightarrow> bool" where
  "graph_inv w e ID0 i q k =
     (k = ID0 + length q \<and> i \<le> length q \<and> q \<noteq> [] \<and> filename (q ! 0) = e \<and>
      length q = child_base q i \<and>
      (\<forall>j<length q. id (q ! j) = ID0 + j \<and> asset_of w (q ! j)) \<and>
      (\<forall>j<length q. i \<le> j \<longrightarrow> mapping (q ! j) = None) \<and>
      (\<forall>j<i. processed ID0 q j))"

text \<open>Every asset of the queue is the extract of a file reachable from the entry.\<close>

definition reach_inv :: "world \<Rightarrow> string \<Rightarrow> asset list \<Rightarrow> bool" where
  "reach_inv w e q = (\<forall>a \<in> set q. reachable w e (filename a) \<and> asset_of w a)"

text \<open>A chain of \<open>m\<close> imports leads from the file to a file that cannot be extracted.\<close>

fun doomed :: "world \<Rightarrow> nat \<Rightarrow> string \<Rightarrow> bool" where
  "doomed w 0 p = (\<exists>err. createAsset w p 0 = Inl err)"
| "doomed w (Suc m) p = (\<exists>p'. import_edge w p p' \<and> doomed w m p')"

text \<open>
  A later state of the loader extends an earlier one: the record of calls has grown at
  its end and no object has gone.
\<close>

definition extends :: "rt \<Rightarrow> rt \<Rightarrow> bool" where
  "extends s s' = ((\<exists>rest. invoked s' = invoked s @ rest) \<and> length (heap s) \<le> length (heap s'))"



subsection \<open>Example file systems\<close>

text \<open>
  A file system from a table of files: name, content, the tree the parser gives for the
  content, the text the transformer gives for the tree.
\<close>

definition world_of :: "(string \<times> string \<times> node \<times> string) list \<Rightarrow> world" where
  "world_of files =
     \<lparr>readFileSync = map_of (map (\<lambda>(f, c, n, t). (f, c)) files),
      parse = map_of (map (\<lambda>(f, c, n, t). (c, n)) files),
      transformFromAst = map_of (map (\<lambda>(f, c, n, t). (n, t)) files)\<rparr>"

text \<open>The diamond: the entry imports \<^verbatim>\<open>x\<close> and \<^verbatim>\<open>y\<close>, and both import \<^verbatim>\<open>z\<close>.\<close>

definition diamond :: world where
  "diamond = world_of
     [(''/app/entry.js'', ''import './x.js'; import './y.js';'',
         Other [ImportDeclaration ''./x.js'', ImportDeclaration ''./y.js''],
         ''require('./x.js'); require('./y.js');''),
      (''/app/x.js'', ''import './z.js'; export default 1;'',
         Other [ImportDeclaration ''./z.js'', Other []],
         ''require('./z.js'); exports.default = 1;''),
      (''/app/y.js'', ''import './z.js'; export default 2;'',
         Other [ImportDeclaration ''./z.js'', Other [Other []]],
         ''require('./z.js'); exports.default = 2;''),
      (''/app/z.js'', ''export default 3;'', Other [],
         ''exports.default = 3;'')]"

definition diamond_graph :: "asset list" where
  "diamond_graph =
     [\<lparr>id = 0, filename = ''/app/entry.js'', dependencies = [''./x.js'', ''./y.js''],
       code = ''require('./x.js'); require('./y.js');'',
       mapping = Some [(''./x.js'', 1), (''./y.js'', 2)]\<rparr>,
      \<lparr>id = 1, filename = ''/app/x.js'', dependencies = [''./z.js''],
       code = ''require('./z.js'); exports.default = 1;'',
       mapping = Some [(''./z.js'', 3)]\<rparr>,
      \<lparr>id = 2, filename = ''/app/y.js'', dependencies = [''./z.js''],
       code = ''require('./z.js'); exports.default = 2;'',
       mapping = Some [(''./z.js'', 4)]\<rparr>,
      \<lparr>id = 3, filename = ''/app/z.js'', dependencies = [],
       code = ''exports.default = 3;'', mapping = Some []\<rparr>,
      \<lparr>id = 4, filename = ''/app/z.js'', dependencies = [],
       code = ''exports.default = 3;'', mapping = Some []\<rparr>]"

text \<open>
  What the engine makes of the four code texts of the diamond: the calls of \<^verbatim>\<open>require\<close>
  and the assignment to \<^verbatim>\<open>exports.default\<close>, in order.
\<close>

definition diamond_exec :: "string \<Rightarrow> addr \<Rightarrow> addr \<Rightarrow> body" where
  "diamond_exec c module exports =
     (if c = ''require('./x.js'); require('./y.js');''
        then Require ''./x.js'' (\<lambda>x. Require ''./y.js'' (\<lambda>y. Return))
      else if c = ''require('./z.js'); exports.default = 1;''
        then Require ''./z.js'' (\<lambda>z. SetProp exports ''default'' (Num 1) Return)
      else if c = ''require('./z.js'); exports.default = 2;''
        then Require ''./z.js'' (\<lambda>z. SetProp exports ''default'' (Num 2) Return)
      else if c = ''exports.default = 3;''
        then SetProp exports ''default'' (Num 3) Return
      else Throw)"

text \<open>
  States of the loader: at the start, after the bundle of the diamond has run, and after
  one and two calls \<^verbatim>\<open>require(3)\<close>.
\<close>

definition rt_empty :: rt where
  "rt_empty = \<lparr>heap = [], invoked = []\<rparr>"

definition diamond_final :: rt where
  "diamond_final =
     \<lparr>heap = [ [], [(''exports'', Ref 0)],
              [(''default'', Num 1)], [(''exports'', Ref 2)],
              [(''default'', Num 3)], [(''exports'', Ref 4)],
              [(''default'', Num 2)], [(''exports'', Ref 6)],
              [(''default'', Num 3)], [(''exports'', Ref 8)]],
      invoked = [(0, code (diamond_graph ! 0), 1, 0), (1, code (diamond_graph ! 1), 3, 2),
                 (3, code (diamond_graph ! 3), 5, 4), (2, code (diamond_graph ! 2), 7, 6),
                 (4, code (diamond_graph ! 4), 9, 8)]\<rparr>"



text \<open>The graph of a second build of the diamond, begun where the first left the counter.\<close>

definition diamond_graph_second :: "asset list" where
  "diamond_graph_second = map (shift_asset 5) diamond_graph"

text \<open>A cycle: \<^verbatim>\<open>a\<close> imports \<^verbatim>\<open>b\<close> and \<^verbatim>\<open>b\<close> imports \<^verbatim>\<open>a\<close>.\<close>

definition cycle :: world where
  "cycle = world_of
     [(''/app/a.js'', ''import './b.js';'', Other [ImportDeclaration ''./b.js''],
         ''require('./b.js');''),
      (''/app/b.js'', ''import './a.js';'', Other [ImportDeclaration ''./a.js'', Other []],
         ''require('./a.js');'')]"

text \<open>Two spellings of one file in one module.\<close>

definition two_spellings :: world where
  "two_spellings = world_of
     [(''/app/entry.js'', ''import './z.js'; import './lib/../z.js';'',
         Other [ImportDeclaration ''./z.js'', ImportDeclaration ''./lib/../z.js''],
         ''require('./z.js'); require('./lib/../z.js');''),
      (''/app/z.js'', ''export default 3;'', Other [], ''exports.default = 3;'')]"

definition two_spellings_graph :: "asset list" where
  "two_spellings_graph =
     [\<lparr>id = 0, filename = ''/app/entry.js'', dependencies = [''./z.js'', ''./lib/../z.js''],
       code = ''require('./z.js'); require('./lib/../z.js');'',
       mapping = Some [(''./z.js'', 1), (''./lib/../z.js'', 2)]\<rparr>,
      \<lparr>id = 1, filename = ''/app/z.js'', dependencies = [],
       code = ''exports.default = 3;'', mapping = Some []\<rparr>,
      \<lparr>id = 2, filename = ''/app/z.js'', dependencies = [],
       code = ''exports.default = 3;'', mapping = Some []\<rparr>]"


text \<open>An entry with one import declaration and one call of \<^verbatim>\<open>require\<close>.\<close>

definition mixed_ast :: node where
  "mixed_ast =
     Other [ImportDeclaration ''./a.js'',
            Other [CallExpression (Identifier ''require'') [StringLiteral ''./b.js'']]]"

definition mixed :: world where
  "mixed = world_of
     [(''/app/entry.js'', ''import './a.js'; require('./b.js');'', mixed_ast,
         ''require('./a.js'); require('./b.js');''),
      (''/app/a.js'', ''export default 1;'', Other [], ''exports.default = 1;''),
      (''/app/b.js'', ''module.exports = 2;'', Other [Other []], ''module.exports = 2;'')]"

definition mixed_entry :: asset where
  "mixed_entry =
     \<lparr>id = 0, filename = ''/app/entry.js'', dependencies = [''./a.js''],
      code = ''require('./a.js'); require('./b.js');'', mapping = None\<rparr>"


text \<open>A cycle \<^verbatim>\<open>a.js\<close>, \<^verbatim>\<open>b.js\<close> whose first file also imports a file that is not on the disk.\<close>

definition cycle_missing :: world where
  "cycle_missing = world_of
     [(''/app/a.js'', ''import './b.js'; import './gone.js';'',
         Other [ImportDeclaration ''./b.js'', ImportDeclaration ''./gone.js''],
         ''require('./b.js'); require('./gone.js');''),
      (''/app/b.js'', ''import './a.js';'', Other [ImportDeclaration ''./a.js'', Other []],
         ''require('./a.js');'')]"






section \<open>Properties\<close>

subsection \<open>The loop invariant\<close>

lemma createAsset_Inr:
  assumes "createAsset w f k = Inr (a, k')"
  shows "id a = k" "k' = k + 1" "filename a = f" "mapping a = None"
  using assms by (auto simp: createAsset_def Let_def split: option.splits)

lemma createAsset_asset_of: "createAsset w f k = Inr (a, k') \<Longrightarrow> asset_of w a"
  by (auto simp: createAsset_def asset_of_def Let_def split: option.splits)

lemma asset_of_mapping_update [simp]: "asset_of w (a\<lparr>mapping := m\<rparr>) = asset_of w a"
  by (simp add: asset_of_def)

lemma set_all_simps [simp]: "set_all [] obj = obj" "set_all ((r, c) # kvs) obj = set_all kvs (js_set r c obj)"
  by (simp_all add: set_all_def)

lemma set_all_Cons_fun: "set_all ((r, c) # kvs) = (\<lambda>obj. set_all kvs (js_set r c obj))"
  by (rule ext) simp

lemma forEach_dependencies_Inr:
  assumes "forEach_dependencies w d i deps q k = Inr (q', k')" and "i < length q"
  shows "\<exists>cs. q' = q[i := (q ! i)\<lparr>mapping := map_option (set_all (zip deps [k..<k + length deps])) (mapping (q ! i))\<rparr>] @ cs
            \<and> length cs = length deps \<and> k' = k + length deps
            \<and> (\<forall>n<length deps. createAsset w (path_join d (deps ! n)) (k + n) = Inr (cs ! n, k + n + 1))"
  using assms
proof (induction deps arbitrary: q k)
  case Nil
  then show ?case by (simp add: option.map_ident)
next
  case (Cons r rest)
  let ?p = "path_join d r"
  from Cons.prems(1) obtain child k1 where
    ca: "createAsset w ?p k = Inr (child, k1)" and
    rec: "forEach_dependencies w d i rest (q[i := set_mapping r (id child) (q ! i)] @ [child]) k1 = Inr (q', k')"
    by (auto simp: Let_def split: sum.splits)
  have k1: "k1 = k + 1" and idc: "id child = k" using createAsset_Inr[OF ca] by auto
  let ?q1 = "q[i := set_mapping r (id child) (q ! i)] @ [child]"
  have i1: "i < length ?q1" using Cons.prems(2) by simp
  from Cons.IH[OF rec i1] obtain cs where
    q': "q' = ?q1[i := (?q1 ! i)\<lparr>mapping := map_option (set_all (zip rest [k1..<k1 + length rest])) (mapping (?q1 ! i))\<rparr>] @ cs"
    and len: "length cs = length rest" and k': "k' = k1 + length rest"
    and cre: "\<forall>n<length rest. createAsset w (path_join d (rest ! n)) (k1 + n) = Inr (cs ! n, k1 + n + 1)"
    by blast
  have nth1: "?q1 ! i = set_mapping r k (q ! i)"
    using Cons.prems(2) by (simp add: nth_append idc)
  have upt: "[k..<k + length (r # rest)] = k # [k1..<k1 + length rest]"
  proof -
    have "[k..<k + Suc (length rest)] = k # [Suc k..<k + Suc (length rest)]"
      by (rule upt_conv_Cons) simp
    then show ?thesis by (simp add: k1)
  qed
  have q'': "q' = q[i := (q ! i)\<lparr>mapping := map_option (set_all (zip (r # rest) [k..<k + length (r # rest)])) (mapping (q ! i))\<rparr>] @ (child # cs)"
    unfolding q' nth1 upt using Cons.prems(2)
    by (simp add: list_update_append1 set_mapping_def option.map_comp comp_def set_all_Cons_fun)
  have "\<forall>n<length (r # rest). createAsset w (path_join d ((r # rest) ! n)) (k + n) = Inr ((child # cs) ! n, k + n + 1)"
  proof (intro allI impI)
    fix n assume n: "n < length (r # rest)"
    show "createAsset w (path_join d ((r # rest) ! n)) (k + n) = Inr ((child # cs) ! n, k + n + 1)"
    proof (cases n)
      case 0
      then show ?thesis using ca k1 by simp
    next
      case (Suc m)
      then show ?thesis using cre n k1 by simp
    qed
  qed
  with q'' len k' k1 show ?case
    by (intro exI[of _ "child # cs"]) simp
qed

lemma child_base_extend:
  assumes "j \<le> length q" "i < length q" "dependencies a' = dependencies (q ! i)"
  shows "child_base (q[i := a'] @ cs) j = child_base q j"
proof -
  have "map (\<lambda>a. length (dependencies a)) (q[i := a']) = map (\<lambda>a. length (dependencies a)) q"
    using assms(2,3) by (simp add: map_update list_update_same_conv)
  then have "map (\<lambda>a. length (dependencies a)) (take j (q[i := a'] @ cs))
           = map (\<lambda>a. length (dependencies a)) (take j q)"
    using assms(1) by (simp add: take_map [symmetric])
  then show ?thesis by (simp add: child_base_def)
qed

lemma child_base_Suc:
  "i < length q \<Longrightarrow> child_base q (Suc i) = child_base q i + length (dependencies (q ! i))"
  by (simp add: child_base_def take_Suc_conv_app_nth)

lemma graph_inv_step:
  assumes inv: "graph_inv w e ID0 i q k" and i: "i < length q"
    and q1: "q1 = q[i := (q ! i)\<lparr>mapping := Some []\<rparr>]"
    and run: "forEach_dependencies w (path_dirname (filename (q1 ! i))) i (dependencies (q1 ! i)) q1 k
               = Inr (q2, k2)"
  shows "graph_inv w e ID0 (Suc i) q2 k2"
proof -
  let ?deps = "dependencies (q ! i)"
  let ?d = "path_dirname (filename (q ! i))"
  let ?Z = "zip ?deps [k..<k + length ?deps]"
  let ?a = "(q ! i)\<lparr>mapping := Some (set_all ?Z [])\<rparr>"
  have q1i: "q1 ! i = (q ! i)\<lparr>mapping := Some []\<rparr>" and i1: "i < length q1"
    using i q1 by simp_all
  from forEach_dependencies_Inr[OF run i1] obtain cs where
    q2': "q2 = q1[i := (q1 ! i)\<lparr>mapping := map_option (set_all (zip (dependencies (q1 ! i))
              [k..<k + length (dependencies (q1 ! i))])) (mapping (q1 ! i))\<rparr>] @ cs"
    and len: "length cs = length (dependencies (q1 ! i))"
    and k2': "k2 = k + length (dependencies (q1 ! i))"
    and cre': "\<forall>n<length (dependencies (q1 ! i)).
        createAsset w (path_join (path_dirname (filename (q1 ! i))) (dependencies (q1 ! i) ! n)) (k + n)
          = Inr (cs ! n, k + n + 1)"
    by blast
  have q2: "q2 = q[i := ?a] @ cs" using q2' by (simp add: q1i) (simp add: q1)
  have lencs: "length cs = length ?deps" using len by (simp add: q1i)
  have k2: "k2 = k + length ?deps" using k2' by (simp add: q1i)
  have cre: "\<And>n. n < length ?deps \<Longrightarrow>
        createAsset w (path_join ?d (?deps ! n)) (k + n) = Inr (cs ! n, k + n + 1)"
    using cre' by (simp add: q1i)
  from inv have k: "k = ID0 + length q" and ne: "q \<noteq> []" and e: "filename (q ! 0) = e"
    and base: "length q = child_base q i"
    and ids: "\<And>j. j < length q \<Longrightarrow> id (q ! j) = ID0 + j \<and> asset_of w (q ! j)"
    and unproc: "\<And>j. j < length q \<Longrightarrow> i \<le> j \<Longrightarrow> mapping (q ! j) = None"
    and proc: "\<And>j. j < i \<Longrightarrow> processed ID0 q j"
    by (auto simp: graph_inv_def)
  have len2: "length q2 = length q + length ?deps" by (simp add: q2 lencs)
  have old: "\<And>j. j < length q \<Longrightarrow> j \<noteq> i \<Longrightarrow> q2 ! j = q ! j"
    by (simp add: q2 nth_append)
  have at_i: "q2 ! i = ?a" using i by (simp add: q2 nth_append)
  have new: "\<And>n. n < length ?deps \<Longrightarrow> q2 ! (length q + n) = cs ! n"
    by (simp add: q2 nth_append)
  have fn: "\<And>j. j < length q \<Longrightarrow> filename (q2 ! j) = filename (q ! j)"
    subgoal for j using old[of j] at_i by (cases "j = i") simp_all
    done
  have cb: "\<And>j. j \<le> length q \<Longrightarrow> child_base q2 j = child_base q j"
    unfolding q2 using i by (intro child_base_extend) simp_all
  have c1: "k2 = ID0 + length q2" by (simp add: k2 k len2)
  have c2: "Suc i \<le> length q2" using i len2 by simp
  have c3: "q2 \<noteq> []" using ne by (simp add: q2)
  have c4: "filename (q2 ! 0) = e" using fn[of 0] ne e by simp
  have c5: "length q2 = child_base q2 (Suc i)"
  proof -
    have "child_base q2 (Suc i) = child_base q (Suc i)" using i by (intro cb) simp
    also have "\<dots> = child_base q i + length ?deps" using i by (rule child_base_Suc)
    finally show ?thesis using base len2 by simp
  qed
  have c6: "\<forall>j<length q2. id (q2 ! j) = ID0 + j \<and> asset_of w (q2 ! j)"
  proof (intro allI impI)
    fix j assume j: "j < length q2"
    consider "j < length q" "j \<noteq> i" | "j = i" | "length q \<le> j" by linarith
    then show "id (q2 ! j) = ID0 + j \<and> asset_of w (q2 ! j)"
    proof cases
      case 1 then show ?thesis using old ids by simp
    next
      case 2 then show ?thesis using at_i ids[OF i] by simp
    next
      case 3
      then obtain n where n: "j = length q + n" "n < length ?deps"
        using j len2 by (metis add_diff_inverse_nat add_less_cancel_left not_le)
      from cre[OF n(2)] createAsset_Inr(1)[OF cre[OF n(2)]] createAsset_asset_of[OF cre[OF n(2)]]
      show ?thesis using new[OF n(2)] n k by simp
    qed
  qed
  have c7: "\<forall>j<length q2. Suc i \<le> j \<longrightarrow> mapping (q2 ! j) = None"
  proof (intro allI impI)
    fix j assume j: "j < length q2" "Suc i \<le> j"
    show "mapping (q2 ! j) = None"
    proof (cases "j < length q")
      case True then show ?thesis using old[of j] unproc[of j] j by simp
    next
      case False
      then obtain n where n: "j = length q + n" "n < length ?deps"
        using j len2 by (metis add_diff_inverse_nat add_less_cancel_left)
      from createAsset_Inr(4)[OF cre[OF n(2)]] show ?thesis using new[OF n(2)] n by simp
    qed
  qed
  have c8: "\<forall>j<Suc i. processed ID0 q2 j"
  proof (intro allI impI)
    fix j assume j: "j < Suc i"
    show "processed ID0 q2 j"
    proof (cases "j = i")
      case True
      have b: "child_base q2 i = length q" using cb[of i] i base by simp
      have "\<And>n. n < length ?deps \<Longrightarrow> filename (q2 ! (length q + n)) = path_join ?d (?deps ! n)"
        using new createAsset_Inr(3)[OF cre] by simp
      then show ?thesis
        unfolding True processed_def Let_def at_i b using k len2 i by simp
    next
      case False
      with j have ji: "j < i" by simp
      then have jq: "j < length q" using i by simp
      have b: "child_base q2 j = child_base q j" using cb[of j] jq by simp
      from proc[OF ji] have
        lt: "j < child_base q j" and
        m: "mapping (q ! j) = Some (set_all (zip (dependencies (q ! j))
              [ID0 + child_base q j..<ID0 + child_base q j + length (dependencies (q ! j))]) [])"
        and ch: "\<And>n. n < length (dependencies (q ! j)) \<Longrightarrow> child_base q j + n < length q \<and>
          filename (q ! (child_base q j + n)) = path_join (path_dirname (filename (q ! j))) (dependencies (q ! j) ! n)"
        by (auto simp: processed_def Let_def)
      have same: "q2 ! j = q ! j" using old[OF jq] False by simp
      have "\<And>n. n < length (dependencies (q ! j)) \<Longrightarrow> child_base q j + n < length q2 \<and>
          filename (q2 ! (child_base q j + n)) = path_join (path_dirname (filename (q ! j))) (dependencies (q ! j) ! n)"
        subgoal for n using ch[of n] fn[of "child_base q j + n"] len2 by simp
        done
      then show ?thesis
        unfolding processed_def Let_def same b using m lt by simp
    qed
  qed
  show ?thesis
    unfolding graph_inv_def using c1 c2 c3 c4 c5 c6 c7 c8 by blast
qed

lemma queue_loop_inv:
  assumes "queue_loop w i q k = Some r"
  shows "graph_inv w e ID0 i q k \<Longrightarrow> r = Inr (g, k') \<Longrightarrow> graph_inv w e ID0 (length g) g k'"
  using assms
proof (induction arbitrary: g k' rule: queue_loop.raw_induct[rotated 1, consumes 1, case_names step])
  case (step loop w i q k r)
  show ?case
  proof (cases "i < length q")
    case True
    define q1 where "q1 = q[i := (q ! i)\<lparr>mapping := Some []\<rparr>]"
    from step.hyps(1) True step.prems(2) obtain q2 k2 where
      run: "forEach_dependencies w (path_dirname (filename (q1 ! i))) i (dependencies (q1 ! i)) q1 k = Inr (q2, k2)"
      and rec: "loop w (i + 1) q2 k2 = Some r"
      by (auto simp: Let_def q1_def split: sum.splits)
    have "graph_inv w e ID0 (Suc i) q2 k2"
      by (rule graph_inv_step[OF step.prems(1) True q1_def run])
    with step.IH[OF rec _ step.prems(2)] show ?thesis by simp
  next
    case False
    with step.hyps(1) step.prems(2) have g: "g = q" "k' = k" by simp_all
    have "i \<le> length q" using step.prems(1) unfolding graph_inv_def by blast
    with False have il: "i = length q" by simp
    from step.prems(1) show ?thesis unfolding g il .
  qed
qed

lemma createGraph_inv:
  assumes "createGraph w e ID0 = Some (Inr (g, k'))"
  shows "graph_inv w e ID0 (length g) g k'"
proof -
  from assms obtain a k1 where ca: "createAsset w e ID0 = Inr (a, k1)"
    and loop: "queue_loop w 0 [a] k1 = Some (Inr (g, k'))"
    by (auto simp: createGraph_def split: sum.splits)
  have "graph_inv w e ID0 0 [a] k1"
    using createAsset_Inr[OF ca] createAsset_asset_of[OF ca]
    by (simp add: graph_inv_def child_base_def)
  from queue_loop_inv[OF loop this refl] show ?thesis .
qed

subsection \<open>Ids and queue positions\<close>

text \<open>
  C10. When the counter is 0 at the start of the call, the asset at index \<open>i\<close> of the
  array returned by \<^verbatim>\<open>createGraph\<close> has id \<open>i\<close>: the ids are the consecutive numbers from
  0 to \<open>n - 1\<close>, given in the order in which the assets are extracted and pushed onto
  the queue, and the counter ends at \<open>n\<close>.
\<close>

theorem createGraph_ids_consecutive:
  assumes "createGraph w entry 0 = Some (Inr (graph, ID'))"
  shows "(\<forall>i<length graph. id (graph ! i) = i) \<and> map id graph = [0..<length graph]
         \<and> ID' = length graph"
proof -
  from createGraph_inv[OF assms] have
    ids: "\<forall>j<length graph. id (graph ! j) = j" and k: "ID' = length graph"
    by (auto simp: graph_inv_def)
  have "map id graph = [0..<length graph]"
    by (rule nth_equalityI) (use ids in simp_all)
  with ids k show ?thesis by blast
qed

theorem createGraph_ids_consecutive_witness:
  "createGraph diamond ''/app/entry.js'' 0 = Some (Inr (diamond_graph, 5)) \<and>
   id (diamond_graph ! 4) = 4 \<and>
   map id diamond_graph = [0..<length diamond_graph] \<and> 5 = length diamond_graph"
proof -
  have run: "createGraph diamond ''/app/entry.js'' 0 = Some (Inr (diamond_graph, 5))"
    by code_simp
  have len: "4 < length diamond_graph"
    by (simp add: diamond_graph_def)
  from createGraph_ids_consecutive[OF run] run len show ?thesis by blast
qed

subsection \<open>The text of the bundle\<close>

lemma fold_append_concat:
  "fold (\<lambda>x acc. acc @ f x) xs acc0 = acc0 @ concat (map f xs)"
  by (induction xs arbitrary: acc0) simp_all

subsection \<open>What the traversal collects\<close>

lemma map_filter_append:
  "List.map_filter g (xs @ ys) = List.map_filter g xs @ List.map_filter g ys"
  by (simp add: List.map_filter_def)

lemma map_filter_Cons_opt:
  "List.map_filter g (x # xs) = (case g x of None \<Rightarrow> [] | Some y \<Rightarrow> [y]) @ List.map_filter g xs"
  by (simp add: List.map_filter_def split: option.splits)

lemma fold_traverse:
  assumes "\<And>c acc. c \<in> set cs \<Longrightarrow> traverse v c acc = acc @ List.map_filter g (preorder c)"
  shows "fold (traverse v) cs acc = acc @ List.map_filter g (concat (map preorder cs))"
  using assms by (induction cs arbitrary: acc) (simp_all add: map_filter_append List.map_filter_simps)

text \<open>
  A visitor that appends to the list what \<open>g\<close> finds in the node it enters collects, over
  the whole tree, what \<open>g\<close> finds in the nodes in their order of appearance.
\<close>

lemma traverse_collects:
  assumes v: "\<And>n acc. v n acc = acc @ (case g n of None \<Rightarrow> [] | Some s \<Rightarrow> [s])"
  shows "traverse v n acc = acc @ List.map_filter g (preorder n)"
proof (induction n arbitrary: acc)
  case (CallExpression callee args)
  have "fold (traverse v) args acc' = acc' @ List.map_filter g (concat (map preorder args))" for acc'
    by (rule fold_traverse) (use CallExpression.IH(2) in simp)
  then show ?case
    unfolding traverse.simps CallExpression.IH(1) v[of "CallExpression callee args" acc]
    by (simp add: map_filter_Cons_opt map_filter_append split: option.splits)
next
  case (Other children)
  have "fold (traverse v) children acc' = acc' @ List.map_filter g (concat (map preorder children))" for acc'
    by (rule fold_traverse) (use Other.IH in simp)
  then show ?case
    unfolding traverse.simps v[of "Other children" acc]
    by (simp add: map_filter_Cons_opt split: option.splits)
next
  case (ImportDeclaration s)
  show ?case unfolding traverse.simps v[of "ImportDeclaration s" acc]
    by (simp add: map_filter_Cons_opt List.map_filter_simps split: option.splits)
next
  case (Identifier x)
  show ?case unfolding traverse.simps v[of "Identifier x" acc]
    by (simp add: map_filter_Cons_opt List.map_filter_simps split: option.splits)
next
  case (StringLiteral x)
  show ?case unfolding traverse.simps v[of "StringLiteral x" acc]
    by (simp add: map_filter_Cons_opt List.map_filter_simps split: option.splits)
qed

lemma createAsset_visitor_spec:
  "createAsset_visitor n acc = acc @ (case import_specifier n of None \<Rightarrow> [] | Some s \<Rightarrow> [s])"
  by (cases n) simp_all

lemma createDependencyGraph_visitor_spec:
  "createDependencyGraph_visitor n acc = acc @ (case spec_specifier n of None \<Rightarrow> [] | Some s \<Rightarrow> [s])"
proof (cases n)
  case (CallExpression callee args)
  show ?thesis
  proof (cases callee)
    case (Identifier f)
    show ?thesis
    proof (cases args)
      case Nil
      then show ?thesis using CallExpression Identifier by simp
    next
      case (Cons a rest)
      then show ?thesis using CallExpression Identifier
        by (cases a; cases rest) (simp_all add: Let_def)
    qed
  qed (use CallExpression in \<open>simp_all add: Let_def\<close>)
qed simp_all

lemma createAsset_dependencies:
  "traverse createAsset_visitor ast [] = List.map_filter import_specifier (preorder ast)"
  using traverse_collects[of createAsset_visitor import_specifier ast "[]", OF createAsset_visitor_spec]
  by simp

lemma createDependencyGraph_count:
  "count_list (traverse createDependencyGraph_visitor ast0 []) s = spec_count ast0 s"
  using traverse_collects[of createDependencyGraph_visitor spec_specifier ast0 "[]",
      OF createDependencyGraph_visitor_spec]
  by (simp add: spec_count_def)

text \<open>
  C4, as the code has it. For every source file processed, \<^verbatim>\<open>createAsset\<close> collects as
  dependency specifiers the sources of all static import declarations, in the order of
  their appearance, and nothing else: a call of \<^verbatim>\<open>require\<close> is not collected. The earlier
  variant \<^verbatim>\<open>createDependencyGraph\<close> collects both kinds, the import declarations and the
  calls of \<^verbatim>\<open>require\<close> with exactly one string literal argument, each specifier as often
  as it occurs; of the order of that variant's list nothing is said.
\<close>

theorem createAsset_collects_imports_only:
  "(createAsset w fname ID = Inr (a, ID') \<longrightarrow>
      (\<exists>content ast. readFileSync w fname = Some content \<and> parse w content = Some ast \<and>
         dependencies a = List.map_filter import_specifier (preorder ast))) \<and>
   count_list (traverse createDependencyGraph_visitor ast0 []) s = spec_count ast0 s"
  using createDependencyGraph_count[of ast0 s]
  by (auto simp: createAsset_def Let_def createAsset_dependencies split: option.splits)

lemma mixed_run: "createAsset mixed ''/app/entry.js'' 0 = Inr (mixed_entry, 1)"
  by code_simp

theorem createAsset_collects_imports_only_witness:
  "createAsset mixed ''/app/entry.js'' 0 = Inr (mixed_entry, 1) \<and>
   (\<exists>content ast. readFileSync mixed ''/app/entry.js'' = Some content \<and>
      parse mixed content = Some ast \<and>
      dependencies mixed_entry = List.map_filter import_specifier (preorder ast)) \<and>
   count_list (traverse createDependencyGraph_visitor mixed_ast []) ''./b.js''
     = spec_count mixed_ast ''./b.js''"
  using createAsset_collects_imports_only[of mixed "''/app/entry.js''" 0 mixed_entry 1 mixed_ast "''./b.js''"]
    mixed_run
  by blast

text \<open>
  C4 as stated fails for \<^verbatim>\<open>createAsset\<close>: of a file with one import declaration and one
  call \<^verbatim>\<open>require('./b.js')\<close> it collects the import only, where the claim counts both.
\<close>

theorem createAsset_misses_require_call:
  "readFileSync mixed ''/app/entry.js'' = Some ''import './a.js'; require('./b.js');'' \<and>
   parse mixed ''import './a.js'; require('./b.js');'' = Some mixed_ast \<and>
   createAsset mixed ''/app/entry.js'' 0 = Inr (mixed_entry, 1) \<and>
   dependencies mixed_entry = [''./a.js''] \<and>
   spec_count mixed_ast ''./a.js'' = 1 \<and>
   spec_count mixed_ast ''./b.js'' = 1 \<and>
   count_list (dependencies mixed_entry) ''./b.js'' = 0"
proof -
  have "readFileSync mixed ''/app/entry.js'' = Some ''import './a.js'; require('./b.js');''"
    by code_simp
  moreover have "parse mixed ''import './a.js'; require('./b.js');'' = Some mixed_ast"
    by code_simp
  moreover have "createAsset mixed ''/app/entry.js'' 0 = Inr (mixed_entry, 1)"
    by code_simp
  moreover have "dependencies mixed_entry = [''./a.js'']"
    by (simp add: mixed_entry_def)
  moreover have "spec_count mixed_ast ''./a.js'' = 1" by code_simp
  moreover have "spec_count mixed_ast ''./b.js'' = 1" by code_simp
  moreover have "count_list (dependencies mixed_entry) ''./b.js'' = 0"
    by (simp add: mixed_entry_def)
  ultimately show ?thesis by (intro conjI)
qed

subsection \<open>The finished graph\<close>

lemma createAsset_imports_of:
  "createAsset w f k = Inr (b, k') \<Longrightarrow> dependencies b = imports_of w f"
  by (auto simp: createAsset_def imports_of_def Let_def createAsset_dependencies
      split: option.splits)

lemma asset_of_dependencies:
  assumes "asset_of w a"
  shows "dependencies a = imports_of w (filename a)"
  using createAsset_imports_of[of w "filename a" "id a" "a\<lparr>mapping := None\<rparr>" "id a + 1"] assms
  by (simp add: asset_of_def)

lemma asset_of_readable:
  assumes "asset_of w a"
  shows "readFileSync w (filename a) \<noteq> None"
  using assms by (auto simp: asset_of_def createAsset_def split: option.splits)

text \<open>What the invariant says of a finished graph.\<close>

lemma graph_inv_final:
  assumes "graph_inv w e ID0 (length g) g k'"
  shows "g \<noteq> []" "filename (g ! 0) = e" "k' = ID0 + length g"
    "\<And>j. j < length g \<Longrightarrow> id (g ! j) = ID0 + j"
    "\<And>j. j < length g \<Longrightarrow> asset_of w (g ! j)"
    "\<And>j. j < length g \<Longrightarrow> processed ID0 g j"
    "length g = 1 + sum_list (map (\<lambda>a. length (dependencies a)) g)"
  using assms by (auto simp: graph_inv_def child_base_def)

lemma processed_child:
  assumes "processed ID0 g j" "n < length (dependencies (g ! j))"
  shows "j < child_base g j + n" "child_base g j + n < length g"
    "filename (g ! (child_base g j + n))
       = path_join (path_dirname (filename (g ! j))) (dependencies (g ! j) ! n)"
  using assms by (auto simp: processed_def Let_def)

text \<open>Every import edge out of an asset's file leads to a later asset of the graph.\<close>

lemma final_edge:
  assumes inv: "graph_inv w e ID0 (length g) g k'" and j: "j < length g"
    and edge: "import_edge w (filename (g ! j)) p'"
  shows "\<exists>j'. j < j' \<and> j' < length g \<and> filename (g ! j') = p'"
proof -
  from edge obtain r where r: "r \<in> set (imports_of w (filename (g ! j)))"
    and p': "p' = path_join (path_dirname (filename (g ! j))) r"
    by (auto simp: import_edge_def)
  from r have "r \<in> set (dependencies (g ! j))"
    using asset_of_dependencies[OF graph_inv_final(5)[OF inv j]] by simp
  then obtain n where n: "n < length (dependencies (g ! j))" "dependencies (g ! j) ! n = r"
    by (auto simp: in_set_conv_nth)
  from processed_child[OF graph_inv_final(6)[OF inv j] n(1)] n(2) p'
  show ?thesis by (intro exI[of _ "child_base g j + n"]) simp
qed

lemma final_reachable_has_asset:
  assumes inv: "graph_inv w e ID0 (length g) g k'" and reach: "reachable w e p"
  shows "\<exists>j<length g. filename (g ! j) = p"
  using reach unfolding reachable_def
proof (induction rule: rtranclp_induct)
  case base
  then show ?case using graph_inv_final(1,2)[OF inv] by (intro exI[of _ 0]) simp
next
  case (step p p')
  then obtain j where j: "j < length g" "filename (g ! j) = p" by blast
  from final_edge[OF inv j(1)] step.hyps(2) j(2) show ?case by blast
qed

lemma final_trancl:
  assumes inv: "graph_inv w e ID0 (length g) g k'"
    and path: "tranclp (import_edge w) p p'"
  shows "j < length g \<Longrightarrow> filename (g ! j) = p \<Longrightarrow>
         \<exists>j'. j < j' \<and> j' < length g \<and> filename (g ! j') = p'"
  using path
proof (induction arbitrary: j rule: tranclp_induct)
  case (base p')
  then show ?case using final_edge[OF inv, of j p'] by simp
next
  case (step p' p'')
  from step.IH[OF step.prems] obtain j' where j': "j < j'" "j' < length g" "filename (g ! j') = p'"
    by blast
  from final_edge[OF inv j'(2)] step.hyps(2) j'(3) obtain j'' where
    "j' < j''" "j'' < length g" "filename (g ! j'') = p''" by blast
  with j'(1) show ?case by (intro exI[of _ j'']) simp
qed

lemma final_no_cycle:
  assumes inv: "graph_inv w e ID0 (length g) g k'" and reach: "reachable w e p"
    and cyc: "tranclp (import_edge w) p p"
  shows False
proof -
  let ?S = "{j. j < length g \<and> filename (g ! j) = p}"
  have fin: "finite ?S" by simp
  have ne: "?S \<noteq> {}" using final_reachable_has_asset[OF inv reach] by blast
  define m where "m = Max ?S"
  have m: "m \<in> ?S" unfolding m_def using fin ne by (rule Max_in)
  then have "m < length g" "filename (g ! m) = p" by simp_all
  from final_trancl[OF inv cyc this] obtain j' where j': "m < j'" "j' \<in> ?S" by blast
  then have "j' \<le> m" unfolding m_def using fin by (intro Max_ge) simp_all
  with j'(1) show False by simp
qed

lemma createAsset_Inl_any:
  "createAsset w p k = Inl err \<Longrightarrow> createAsset w p k' = Inl err"
  by (auto simp: createAsset_def Let_def split: option.splits)

lemma forEach_dependencies_Inl:
  assumes "forEach_dependencies w d i deps q k = Inl err"
  shows "\<exists>r \<in> set deps. \<forall>k'. createAsset w (path_join d r) k' = Inl err"
  using assms
proof (induction deps arbitrary: q k)
  case Nil
  then show ?case by simp
next
  case (Cons r rest)
  show ?case
  proof (cases "createAsset w (path_join d r) k")
    case (Inl e)
    with Cons.prems have "e = err" by (simp add: Let_def)
    with Inl have "\<forall>k'. createAsset w (path_join d r) k' = Inl err"
      using createAsset_Inl_any[of w "path_join d r" k err] by simp
    then show ?thesis by (intro bexI[of _ r]) simp_all
  next
    case (Inr x)
    obtain child k1 where x: "x = (child, k1)" by (cases x)
    from Cons.prems Inr x have
      "forEach_dependencies w d i rest
         (q[i := set_mapping r (id child) (q ! i)] @ [child]) k1 = Inl err"
      by (simp add: Let_def)
    from Cons.IH[OF this] obtain r' where
      "r' \<in> set rest" "\<forall>k'. createAsset w (path_join d r') k' = Inl err" by blast
    then show ?thesis by (intro bexI[of _ r']) simp_all
  qed
qed

lemma reach_inv_step:
  assumes inv: "reach_inv w e q" and i: "i < length q"
    and q1: "q1 = q[i := (q ! i)\<lparr>mapping := Some []\<rparr>]"
    and run: "forEach_dependencies w (path_dirname (filename (q1 ! i))) i (dependencies (q1 ! i)) q1 k
               = Inr (q2, k2)"
  shows "reach_inv w e q2"
proof -
  let ?deps = "dependencies (q ! i)"
  let ?d = "path_dirname (filename (q ! i))"
  have q1i: "q1 ! i = (q ! i)\<lparr>mapping := Some []\<rparr>" and i1: "i < length q1"
    using i q1 by simp_all
  from forEach_dependencies_Inr[OF run i1] obtain cs a' where
    q2: "q2 = q1[i := a'] @ cs" and
    a': "a' = (q1 ! i)\<lparr>mapping := map_option (set_all (zip (dependencies (q1 ! i))
              [k..<k + length (dependencies (q1 ! i))])) (mapping (q1 ! i))\<rparr>"
    and len: "length cs = length ?deps"
    and cre: "\<forall>n<length ?deps. createAsset w (path_join ?d (?deps ! n)) (k + n) = Inr (cs ! n, k + n + 1)"
    by (auto simp: q1i)
  have parent: "reachable w e (filename (q ! i))" "asset_of w (q ! i)"
    using inv i by (auto simp: reach_inv_def)
  have a'ok: "reachable w e (filename a') \<and> asset_of w a'"
    using parent by (simp add: a' q1i)
  have old: "\<And>a. a \<in> set (q1[i := a']) \<Longrightarrow> reachable w e (filename a) \<and> asset_of w a"
  proof -
    fix a assume "a \<in> set (q1[i := a'])"
    then have "a \<in> insert a' (set q1)" using set_update_subset_insert by fastforce
    moreover have "set q1 \<subseteq> insert ((q ! i)\<lparr>mapping := Some []\<rparr>) (set q)"
      unfolding q1 by (rule set_update_subset_insert)
    ultimately consider "a = a'" | "a = (q ! i)\<lparr>mapping := Some []\<rparr>" | "a \<in> set q" by blast
    then show "reachable w e (filename a) \<and> asset_of w a"
      using a'ok parent inv by cases (auto simp: reach_inv_def)
  qed
  have new: "\<And>a. a \<in> set cs \<Longrightarrow> reachable w e (filename a) \<and> asset_of w a"
  proof -
    fix a assume "a \<in> set cs"
    then obtain n where n: "n < length ?deps" "cs ! n = a"
      using len by (auto simp: in_set_conv_nth)
    from cre n have ca: "createAsset w (path_join ?d (?deps ! n)) (k + n) = Inr (a, k + n + 1)" by simp
    have "?deps ! n \<in> set (imports_of w (filename (q ! i)))"
      using n(1) asset_of_dependencies[OF parent(2)] by (metis nth_mem)
    then have "import_edge w (filename (q ! i)) (path_join ?d (?deps ! n))"
      by (auto simp: import_edge_def)
    with parent(1) have "reachable w e (path_join ?d (?deps ! n))"
      unfolding reachable_def by (rule rtranclp.rtrancl_into_rtrancl)
    with createAsset_Inr(3)[OF ca] createAsset_asset_of[OF ca] show "reachable w e (filename a) \<and> asset_of w a"
      by simp
  qed
  show ?thesis unfolding reach_inv_def q2 using old new by auto
qed

lemma queue_loop_reach:
  assumes "queue_loop w i q k = Some r"
  shows "reach_inv w e q \<Longrightarrow>
         (case r of Inr (g, k') \<Rightarrow> reach_inv w e g
                  | Inl err \<Rightarrow> \<exists>p. reachable w e p \<and> (\<forall>k'. createAsset w p k' = Inl err))"
  using assms
proof (induction rule: queue_loop.raw_induct[rotated 1, consumes 1, case_names step])
  case (step loop w i q k r)
  show ?case
  proof (cases "i < length q")
    case True
    define q1 where "q1 = q[i := (q ! i)\<lparr>mapping := Some []\<rparr>]"
    let ?run = "forEach_dependencies w (path_dirname (filename (q1 ! i))) i (dependencies (q1 ! i)) q1 k"
    show ?thesis
    proof (cases ?run)
      case (Inl err)
      with step.hyps(1) True have r: "r = Inl err" by (simp add: Let_def q1_def)
      from forEach_dependencies_Inl[OF Inl] obtain rel where
        rel: "rel \<in> set (dependencies (q1 ! i))"
        and fail: "\<forall>k'. createAsset w (path_join (path_dirname (filename (q1 ! i))) rel) k' = Inl err"
        by blast
      have parent: "reachable w e (filename (q ! i))" "asset_of w (q ! i)"
        using step.prems True by (auto simp: reach_inv_def)
      have "rel \<in> set (imports_of w (filename (q ! i)))"
        using rel True asset_of_dependencies[OF parent(2)] by (simp add: q1_def)
      then have "import_edge w (filename (q ! i)) (path_join (path_dirname (filename (q ! i))) rel)"
        by (auto simp: import_edge_def)
      with parent(1) have "reachable w e (path_join (path_dirname (filename (q ! i))) rel)"
        unfolding reachable_def by (rule rtranclp.rtrancl_into_rtrancl)
      with fail True show ?thesis unfolding r by (auto simp: q1_def)
    next
      case (Inr x)
      obtain q2 k2 where x: "x = (q2, k2)" by (cases x)
      with Inr step.hyps(1) True have rec: "loop w (i + 1) q2 k2 = Some r"
        by (simp add: Let_def q1_def)
      have "reach_inv w e q2"
        by (rule reach_inv_step[OF step.prems True q1_def]) (use Inr x in simp)
      from step.IH[OF rec this] show ?thesis .
    qed
  next
    case False
    with step.hyps(1) have "r = Inr (q, k)" by simp
    with step.prems show ?thesis by simp
  qed
qed

lemma reachable_refl: "reachable w e e"
  by (simp add: reachable_def)

lemma createGraph_reach:
  assumes "createGraph w e ID0 = Some r"
  shows "case r of Inr (g, k') \<Rightarrow> reach_inv w e g
                 | Inl err \<Rightarrow> \<exists>p. reachable w e p \<and> (\<forall>k'. createAsset w p k' = Inl err)"
proof (cases "createAsset w e ID0")
  case (Inl err)
  with assms have "r = Inl err" by (simp add: createGraph_def)
  with createAsset_Inl_any[OF Inl] reachable_refl show ?thesis by auto
next
  case (Inr x)
  obtain a k1 where x: "x = (a, k1)" by (cases x)
  with Inr assms have loop: "queue_loop w 0 [a] k1 = Some r" by (simp add: createGraph_def)
  have "reach_inv w e [a]"
    using createAsset_Inr(3)[of w e ID0 a k1] createAsset_asset_of[of w e ID0 a k1] Inr x
    by (simp add: reach_inv_def reachable_refl)
  from queue_loop_reach[OF loop this] show ?thesis .
qed

lemma map_of_js_set:
  "r \<noteq> ''__proto__'' \<Longrightarrow> map_of (js_set r' c obj) r = (if r' = r then Some c else map_of obj r)"
  by (simp add: js_set_def update_conv')

text \<open>
  Looking a key up after a run of assignments: the value assigned last to it.
\<close>

lemma set_all_lookup:
  assumes "r \<noteq> ''__proto__''"
  shows "(r \<in> set deps \<longrightarrow>
            (\<exists>n<length deps. deps ! n = r \<and>
               map_of (set_all (zip deps [c..<c + length deps]) obj) r = Some (c + n))) \<and>
         (r \<notin> set deps \<longrightarrow> map_of (set_all (zip deps [c..<c + length deps]) obj) r = map_of obj r)"
proof (induction deps arbitrary: c obj)
  case Nil
  then show ?case by simp
next
  case (Cons d ds)
  have upt: "[c..<c + length (d # ds)] = c # [Suc c..<Suc c + length ds]"
  proof -
    have "[c..<c + Suc (length ds)] = c # [Suc c..<c + Suc (length ds)]"
      by (rule upt_conv_Cons) simp
    then show ?thesis by simp
  qed
  have unfold: "set_all (zip (d # ds) [c..<c + length (d # ds)]) obj
      = set_all (zip ds [Suc c..<Suc c + length ds]) (js_set d c obj)"
    unfolding upt by simp
  show ?case
  proof (cases "r \<in> set ds")
    case True
    with Cons.IH[of "Suc c" "js_set d c obj"] obtain n where
      n: "n < length ds" "ds ! n = r"
      "map_of (set_all (zip ds [Suc c..<Suc c + length ds]) (js_set d c obj)) r = Some (Suc c + n)"
      by blast
    have "Suc n < length (d # ds) \<and> (d # ds) ! Suc n = r \<and>
        map_of (set_all (zip (d # ds) [c..<c + length (d # ds)]) obj) r = Some (c + Suc n)"
      using n unfolding unfold by simp
    with True show ?thesis by (metis list.set_intros(2))
  next
    case False
    with Cons.IH[of "Suc c" "js_set d c obj"] have
      eq: "map_of (set_all (zip ds [Suc c..<Suc c + length ds]) (js_set d c obj)) r
            = map_of (js_set d c obj) r"
      by blast
    show ?thesis
    proof (cases "d = r")
      case True
      have "0 < length (d # ds) \<and> (d # ds) ! 0 = r \<and>
          map_of (set_all (zip (d # ds) [c..<c + length (d # ds)]) obj) r = Some (c + 0)"
        unfolding unfold eq using True assms by (simp add: map_of_js_set)
      then show ?thesis using True by (metis list.set_intros(1))
    next
      case False
      with \<open>r \<notin> set ds\<close> show ?thesis
        unfolding unfold eq using assms by (simp add: map_of_js_set)
    qed
  qed
qed

text \<open>
  C7, as the code has it. Two distinct raw specifiers of one module that resolve to the
  same canonical path are mapped to two different ids: each specifier gets an Asset of
  its own, both Assets are in the graph, and both have that canonical path as file name.
  (A specifier spelled \<^verbatim>\<open>__proto__\<close> never enters a mapping and is left aside.)
\<close>

theorem createGraph_two_specifiers:
  assumes run: "createGraph w entry ID = Some (Inr (graph, ID'))"
    and a: "a \<in> set graph"
    and r1: "r1 \<in> set (dependencies a)" and r2: "r2 \<in> set (dependencies a)"
    and ne: "r1 \<noteq> r2" and np1: "r1 \<noteq> ''__proto__''" and np2: "r2 \<noteq> ''__proto__''"
    and same: "path_join (path_dirname (filename a)) r1 = path_join (path_dirname (filename a)) r2"
  shows "\<exists>m a1 a2. mapping a = Some m \<and> a1 \<in> set graph \<and> a2 \<in> set graph \<and>
           map_of m r1 = Some (id a1) \<and> map_of m r2 = Some (id a2) \<and> id a1 \<noteq> id a2 \<and>
           filename a1 = path_join (path_dirname (filename a)) r1 \<and> filename a2 = filename a1"
proof -
  note inv = createGraph_inv[OF run]
  from a obtain j where j: "j < length graph" "graph ! j = a" by (auto simp: in_set_conv_nth)
  let ?deps = "dependencies a"
  let ?b = "child_base graph j"
  let ?m = "set_all (zip ?deps [ID + ?b..<ID + ?b + length ?deps]) []"
  have proc: "processed ID graph j" by (rule graph_inv_final(6)[OF inv j(1)])
  then have m: "mapping a = Some ?m" using j(2) by (simp add: processed_def Let_def)
  from set_all_lookup[OF np1, of ?deps "ID + ?b" "[]"] r1 obtain n1 where
    n1: "n1 < length ?deps" "?deps ! n1 = r1" "map_of ?m r1 = Some (ID + ?b + n1)" by blast
  from set_all_lookup[OF np2, of ?deps "ID + ?b" "[]"] r2 obtain n2 where
    n2: "n2 < length ?deps" "?deps ! n2 = r2" "map_of ?m r2 = Some (ID + ?b + n2)" by blast
  have nn: "n1 \<noteq> n2" using n1(2) n2(2) ne by auto
  let ?a1 = "graph ! (?b + n1)" and ?a2 = "graph ! (?b + n2)"
  from processed_child[OF proc] n1(1,2) j(2) have
    c1: "?b + n1 < length graph" "filename ?a1 = path_join (path_dirname (filename a)) r1"
    by auto
  from processed_child[OF proc] n2(1,2) j(2) have
    c2: "?b + n2 < length graph" "filename ?a2 = path_join (path_dirname (filename a)) r2"
    by auto
  have id1: "id ?a1 = ID + ?b + n1" using graph_inv_final(4)[OF inv c1(1)] by simp
  have id2: "id ?a2 = ID + ?b + n2" using graph_inv_final(4)[OF inv c2(1)] by simp
  have "mapping a = Some ?m \<and> ?a1 \<in> set graph \<and> ?a2 \<in> set graph \<and>
           map_of ?m r1 = Some (id ?a1) \<and> map_of ?m r2 = Some (id ?a2) \<and> id ?a1 \<noteq> id ?a2 \<and>
           filename ?a1 = path_join (path_dirname (filename a)) r1 \<and> filename ?a2 = filename ?a1"
    using m c1 c2 n1(3) n2(3) id1 id2 nn same by simp
  then show ?thesis by blast
qed

lemma two_run: "createGraph two_spellings ''/app/entry.js'' 0 = Some (Inr (two_spellings_graph, 3))"
  by code_simp

lemma two_paths: "path_join (path_dirname ''/app/entry.js'') ''./z.js'' = ''/app/z.js''"
   "path_join (path_dirname ''/app/entry.js'') ''./lib/../z.js'' = ''/app/z.js''"
  by code_simp+

lemma createGraph_reachable_iff:
  assumes run: "createGraph w entry ID = Some (Inr (graph, ID'))"
  shows "reachable w entry p \<longleftrightarrow> (\<exists>a\<in>set graph. filename a = p)"
proof
  assume "reachable w entry p"
  from final_reachable_has_asset[OF createGraph_inv[OF run] this]
  show "\<exists>a\<in>set graph. filename a = p" by (metis nth_mem)
next
  assume "\<exists>a\<in>set graph. filename a = p"
  with createGraph_reach[OF run] show "reachable w entry p" by (auto simp: reach_inv_def)
qed

lemma createGraph_no_cycle:
  assumes run: "createGraph w entry ID = Some (Inr (graph, ID'))"
    and "reachable w entry p" "tranclp (import_edge w) p p"
  shows False
  using final_no_cycle[OF createGraph_inv[OF run] assms(2,3)] .

lemma createGraph_cycle_None:
  assumes "reachable w entry p" "tranclp (import_edge w) p p"
    and ok: "\<forall>q. reachable w entry q \<longrightarrow> (\<exists>a k. createAsset w q 0 = Inr (a, k))"
  shows "createGraph w entry ID = None"
proof (rule ccontr)
  assume "createGraph w entry ID \<noteq> None"
  then obtain r where r: "createGraph w entry ID = Some r" by blast
  show False
  proof (cases r)
    case (Inl err)
    with createGraph_reach[OF r] obtain q where "reachable w entry q" "createAsset w q 0 = Inl err"
      by auto
    with ok show False by fastforce
  next
    case (Inr x)
    then show False using createGraph_no_cycle[of w entry ID "fst x" "snd x"] r assms(1,2) by simp
  qed
qed

lemma cycle_edges:
  "import_edge cycle ''/app/a.js'' p \<longleftrightarrow> p = ''/app/b.js''"
  "import_edge cycle ''/app/b.js'' p \<longleftrightarrow> p = ''/app/a.js''"
proof -
  have a: "imports_of cycle ''/app/a.js'' = [''./b.js'']" by code_simp
  have b: "imports_of cycle ''/app/b.js'' = [''./a.js'']" by code_simp
  have pa: "path_join (path_dirname ''/app/a.js'') ''./b.js'' = ''/app/b.js''" by code_simp
  have pb: "path_join (path_dirname ''/app/b.js'') ''./a.js'' = ''/app/a.js''" by code_simp
  show "import_edge cycle ''/app/a.js'' p \<longleftrightarrow> p = ''/app/b.js''"
    by (simp add: import_edge_def a pa)
  show "import_edge cycle ''/app/b.js'' p \<longleftrightarrow> p = ''/app/a.js''"
    by (simp add: import_edge_def b pb)
qed

lemma cycle_reachable:
  assumes "reachable cycle ''/app/a.js'' q"
  shows "q = ''/app/a.js'' \<or> q = ''/app/b.js''"
  using assms unfolding reachable_def
  by (induction rule: rtranclp_induct) (auto simp: cycle_edges)

lemma cycle_loop: "tranclp (import_edge cycle) ''/app/a.js'' ''/app/a.js''"
proof -
  have "import_edge cycle ''/app/a.js'' ''/app/b.js''" by (simp add: cycle_edges)
  moreover have "import_edge cycle ''/app/b.js'' ''/app/a.js''" by (simp add: cycle_edges)
  ultimately show ?thesis by (rule tranclp.intros(2)[OF tranclp.intros(1)])
qed

lemma cycle_files_ok:
  "\<forall>q. reachable cycle ''/app/a.js'' q \<longrightarrow> (\<exists>a k. createAsset cycle q 0 = Inr (a, k))"
proof (intro allI impI)
  fix q assume "reachable cycle ''/app/a.js'' q"
  then consider "q = ''/app/a.js''" | "q = ''/app/b.js''" using cycle_reachable by blast
  then show "\<exists>a k. createAsset cycle q 0 = Inr (a, k)"
  proof cases
    case 1
    have "createAsset cycle ''/app/a.js'' 0 = Inr (\<lparr>id = 0, filename = ''/app/a.js'',
        dependencies = [''./b.js''], code = ''require('./b.js');'', mapping = None\<rparr>, 1)"
      by code_simp
    with 1 show ?thesis by blast
  next
    case 2
    have "createAsset cycle ''/app/b.js'' 0 = Inr (\<lparr>id = 0, filename = ''/app/b.js'',
        dependencies = [''./a.js''], code = ''require('./a.js');'', mapping = None\<rparr>, 1)"
      by code_simp
    with 2 show ?thesis by blast
  qed
qed

lemma cycle_None: "createGraph cycle ''/app/a.js'' 0 = None"
  by (rule createGraph_cycle_None[OF reachable_refl cycle_loop cycle_files_ok])

subsection \<open>One Asset per import\<close>

lemma map_of_js_set_Some:
  "map_of (js_set d c0 obj) r = Some c \<Longrightarrow> c = c0 \<or> map_of obj r = Some c"
  by (auto simp: js_set_def update_conv' split: if_splits)

lemma set_all_range:
  "map_of (set_all (zip deps [c0..<c0 + length deps]) obj) r = Some c \<Longrightarrow>
     (c0 \<le> c \<and> c < c0 + length deps) \<or> map_of obj r = Some c"
proof (induction deps arbitrary: c0 obj)
  case Nil
  then show ?case by simp
next
  case (Cons d ds)
  have "[c0..<c0 + Suc (length ds)] = c0 # [Suc c0..<c0 + Suc (length ds)]"
    by (rule upt_conv_Cons) simp
  then have "set_all (zip (d # ds) [c0..<c0 + length (d # ds)]) obj
      = set_all (zip ds [Suc c0..<Suc c0 + length ds]) (js_set d c0 obj)"
    by simp
  with Cons.prems have "map_of (set_all (zip ds [Suc c0..<Suc c0 + length ds]) (js_set d c0 obj)) r = Some c"
    by simp
  from Cons.IH[OF this] show ?case
    using map_of_js_set_Some[of d c0 obj r c] by auto
qed

lemma child_base_mono: "i \<le> j \<Longrightarrow> child_base g i \<le> child_base g j"
proof -
  assume "i \<le> j"
  then obtain d where "j = i + d" using le_Suc_ex by blast
  then show ?thesis by (simp add: child_base_def take_add)
qed

lemma mapping_range:
  assumes "processed ID g j" "mapping (g ! j) = Some m" "map_of m r = Some c"
  shows "ID + child_base g j \<le> c \<and> c < ID + child_base g j + length (dependencies (g ! j))"
proof -
  from assms(1,2) have "m = set_all (zip (dependencies (g ! j))
      [ID + child_base g j..<ID + child_base g j + length (dependencies (g ! j))]) []"
    by (simp add: processed_def Let_def)
  with assms(3) set_all_range[of "dependencies (g ! j)" "ID + child_base g j" "[]" r c]
  show ?thesis by simp
qed

lemma mapping_ids_increase:
  assumes inv: "graph_inv w e ID (length g) g k'" and ij: "i < j" "j < length g"
    and m1: "mapping (g ! i) = Some m1" "map_of m1 r = Some c1"
    and m2: "mapping (g ! j) = Some m2" "map_of m2 s = Some c2"
  shows "c1 < c2"
proof -
  have i: "i < length g" using ij by simp
  from mapping_range[OF graph_inv_final(6)[OF inv i] m1]
  have "c1 < ID + child_base g (Suc i)" using child_base_Suc[OF i] by simp
  also have "\<dots> \<le> ID + child_base g j" using child_base_mono[of "Suc i" j g] ij by simp
  also have "\<dots> \<le> c2" using mapping_range[OF graph_inv_final(6)[OF inv ij(2)] m2] by simp
  finally show ?thesis .
qed

text \<open>
  C1, as the code has it. The canonical paths of the Assets of a graph returned by
  \<^verbatim>\<open>createGraph\<close> are exactly the paths reachable from the entry, but there is one Asset
  for every import and not one for every path: the graph has the entry's Asset and one
  Asset for each dependency specifier of each of its Assets, and every id in the mapping
  of a module later in the queue is greater than every id in the mapping of an earlier
  one. So two modules that import the same file map it to two different ids.
\<close>

theorem createGraph_one_asset_per_import:
  assumes run: "createGraph w entry ID = Some (Inr (graph, ID'))"
  shows "(\<forall>p. reachable w entry p \<longleftrightarrow> (\<exists>a\<in>set graph. filename a = p)) \<and>
         length graph = 1 + sum_list (map (\<lambda>a. length (dependencies a)) graph) \<and>
         (\<forall>i j m1 m2 r s c1 c2. i < j \<and> j < length graph \<and>
              mapping (graph ! i) = Some m1 \<and> map_of m1 r = Some c1 \<and>
              mapping (graph ! j) = Some m2 \<and> map_of m2 s = Some c2 \<longrightarrow> c1 < c2)"
proof -
  note inv = createGraph_inv[OF run]
  have "\<forall>p. reachable w entry p \<longleftrightarrow> (\<exists>a\<in>set graph. filename a = p)"
    using createGraph_reachable_iff[OF run] by blast
  moreover have "length graph = 1 + sum_list (map (\<lambda>a. length (dependencies a)) graph)"
    by (rule graph_inv_final(7)[OF inv])
  moreover have "\<forall>i j m1 m2 r s c1 c2. i < j \<and> j < length graph \<and>
              mapping (graph ! i) = Some m1 \<and> map_of m1 r = Some c1 \<and>
              mapping (graph ! j) = Some m2 \<and> map_of m2 s = Some c2 \<longrightarrow> c1 < c2"
    using mapping_ids_increase[OF inv] by blast
  ultimately show ?thesis by blast
qed

lemma diamond_run: "createGraph diamond ''/app/entry.js'' 0 = Some (Inr (diamond_graph, 5))"
  by code_simp

theorem createGraph_one_asset_per_import_witness:
  "createGraph diamond ''/app/entry.js'' 0 = Some (Inr (diamond_graph, 5)) \<and>
   reachable diamond ''/app/entry.js'' ''/app/z.js'' \<and>
   length diamond_graph = 1 + sum_list (map (\<lambda>a. length (dependencies a)) diamond_graph) \<and>
   mapping (diamond_graph ! 1) = Some [(''./z.js'', 3)] \<and>
   mapping (diamond_graph ! 2) = Some [(''./z.js'', 4)] \<and>
   (3::nat) < 4"
proof -
  note res = createGraph_one_asset_per_import[OF diamond_run]
  note paths = res[THEN conjunct1, rule_format]
  note count = res[THEN conjunct2, THEN conjunct1]
  note order = res[THEN conjunct2, THEN conjunct2, rule_format]
  have z: "\<exists>a\<in>set diamond_graph. filename a = ''/app/z.js''"
    by (simp add: diamond_graph_def)
  have r: "reachable diamond ''/app/entry.js'' ''/app/z.js''"
    unfolding paths by (rule z)
  have m1: "mapping (diamond_graph ! 1) = Some [(''./z.js'', 3)]"
    and m2: "mapping (diamond_graph ! 2) = Some [(''./z.js'', 4)]"
    and len: "2 < length diamond_graph"
    by (simp_all add: diamond_graph_def)
  have l1: "map_of [(''./z.js'', 3::nat)] ''./z.js'' = Some 3"
    and l2: "map_of [(''./z.js'', 4::nat)] ''./z.js'' = Some 4" by simp_all
  have lt: "(1::nat) < 2" by simp
  have "(3::nat) < 4"
    by (rule order[of 1 2 "[(''./z.js'', 3)]" "''./z.js''" 3 "[(''./z.js'', 4)]" "''./z.js''" 4])
       (intro conjI lt len m1 l1 m2 l2)
  with diamond_run r count m1 m2 show ?thesis by (intro conjI)
qed

text \<open>
  C1 as stated fails on the diamond: the graph has two Assets for \<^verbatim>\<open>z\<close>, with ids 3 and
  4, and the mappings of \<^verbatim>\<open>x\<close> and \<^verbatim>\<open>y\<close> send \<^verbatim>\<open>./z.js\<close> to 3 and to 4.
\<close>

theorem diamond_has_two_assets_for_z:
  "createGraph diamond ''/app/entry.js'' 0 = Some (Inr (diamond_graph, 5)) \<and>
   filename (diamond_graph ! 1) = ''/app/x.js'' \<and>
   filename (diamond_graph ! 2) = ''/app/y.js'' \<and>
   filename (diamond_graph ! 3) = ''/app/z.js'' \<and> id (diamond_graph ! 3) = 3 \<and>
   filename (diamond_graph ! 4) = ''/app/z.js'' \<and> id (diamond_graph ! 4) = 4 \<and>
   mapping (diamond_graph ! 1) = Some [(''./z.js'', 3)] \<and>
   mapping (diamond_graph ! 2) = Some [(''./z.js'', 4)]"
  using diamond_run by (simp add: diamond_graph_def)

theorem createGraph_two_specifiers_witness:
  "createGraph two_spellings ''/app/entry.js'' 0 = Some (Inr (two_spellings_graph, 3)) \<and>
   two_spellings_graph ! 0 \<in> set two_spellings_graph \<and>
   ''./z.js'' \<in> set (dependencies (two_spellings_graph ! 0)) \<and>
   ''./lib/../z.js'' \<in> set (dependencies (two_spellings_graph ! 0)) \<and>
   ''./z.js'' \<noteq> ''./lib/../z.js'' \<and> ''./z.js'' \<noteq> ''__proto__'' \<and>
   ''./lib/../z.js'' \<noteq> ''__proto__'' \<and>
   path_join (path_dirname (filename (two_spellings_graph ! 0))) ''./z.js''
     = path_join (path_dirname (filename (two_spellings_graph ! 0))) ''./lib/../z.js'' \<and>
   (\<exists>m a1 a2. mapping (two_spellings_graph ! 0) = Some m \<and>
      a1 \<in> set two_spellings_graph \<and> a2 \<in> set two_spellings_graph \<and>
      map_of m ''./z.js'' = Some (id a1) \<and> map_of m ''./lib/../z.js'' = Some (id a2) \<and>
      id a1 \<noteq> id a2 \<and>
      filename a1 = path_join (path_dirname (filename (two_spellings_graph ! 0))) ''./z.js'' \<and>
      filename a2 = filename a1)"
proof -
  have a: "two_spellings_graph ! 0 \<in> set two_spellings_graph"
    by (simp add: two_spellings_graph_def)
  have r1: "''./z.js'' \<in> set (dependencies (two_spellings_graph ! 0))"
    and r2: "''./lib/../z.js'' \<in> set (dependencies (two_spellings_graph ! 0))"
    by (simp_all add: two_spellings_graph_def)
  have ne: "''./z.js'' \<noteq> ''./lib/../z.js''" "''./z.js'' \<noteq> ''__proto__''"
    "''./lib/../z.js'' \<noteq> ''__proto__''" by simp_all
  have fn: "filename (two_spellings_graph ! 0) = ''/app/entry.js''"
    by (simp add: two_spellings_graph_def)
  have same: "path_join (path_dirname (filename (two_spellings_graph ! 0))) ''./z.js''
     = path_join (path_dirname (filename (two_spellings_graph ! 0))) ''./lib/../z.js''"
    unfolding fn two_paths ..
  from createGraph_two_specifiers[OF two_run a r1 r2 ne same] two_run a r1 r2 ne same
  show ?thesis by blast
qed

text \<open>
  C7 as stated fails where a module imports \<^verbatim>\<open>./z.js\<close> and \<^verbatim>\<open>./lib/../z.js\<close>: both
  resolve to \<^verbatim>\<open>/app/z.js\<close>, and the mapping sends them to the ids 1 and 2.
\<close>

theorem two_spellings_get_two_ids:
  "createGraph two_spellings ''/app/entry.js'' 0 = Some (Inr (two_spellings_graph, 3)) \<and>
   dependencies (two_spellings_graph ! 0) = [''./z.js'', ''./lib/../z.js''] \<and>
   path_join (path_dirname ''/app/entry.js'') ''./z.js'' = ''/app/z.js'' \<and>
   path_join (path_dirname ''/app/entry.js'') ''./lib/../z.js'' = ''/app/z.js'' \<and>
   mapping (two_spellings_graph ! 0) = Some [(''./z.js'', 1), (''./lib/../z.js'', 2)]"
  using two_run two_paths by (simp add: two_spellings_graph_def)

subsection \<open>The counter across calls\<close>

lemma shift_asset_simps [simp]:
  "id (shift_asset d a) = id a + d" "filename (shift_asset d a) = filename a"
  "dependencies (shift_asset d a) = dependencies a" "code (shift_asset d a) = code a"
  "mapping (shift_asset d a) = map_option (map (\<lambda>(r, c). (r, c + d))) (mapping a)"
  by (simp_all add: shift_asset_def)

lemma createAsset_shift:
  "createAsset w f (k + d) =
     (case createAsset w f k of Inl e \<Rightarrow> Inl e | Inr (a, k') \<Rightarrow> Inr (shift_asset d a, k' + d))"
  by (simp add: createAsset_def Let_def shift_asset_def split: option.splits)

lemma update_map_value:
  "map (\<lambda>(r, c). (r, f c)) (AList.update k v al) = AList.update k (f v) (map (\<lambda>(r, c). (r, f c)) al)"
  by (induction al) auto

lemma js_set_shift:
  "map (\<lambda>(r, c). (r, c + d)) (js_set k v obj) = js_set k (v + d) (map (\<lambda>(r, c). (r, c + d)) obj)"
  by (simp add: js_set_def update_map_value)

lemma set_mapping_shift:
  "shift_asset d (set_mapping r c a) = set_mapping r (c + d) (shift_asset d a)"
  by (cases "mapping a") (simp_all add: shift_asset_def set_mapping_def js_set_shift)

lemma forEach_dependencies_shift:
  assumes "i < length q"
  shows "forEach_dependencies w dn i deps (map (shift_asset d) q) (k + d)
           = shift_result d (forEach_dependencies w dn i deps q k)"
  using assms
proof (induction deps arbitrary: q k)
  case Nil
  then show ?case by (simp add: shift_result_def)
next
  case (Cons r rest)
  show ?case
  proof (cases "createAsset w (path_join dn r) k")
    case (Inl e)
    then show ?thesis by (simp add: createAsset_shift shift_result_def Let_def)
  next
    case (Inr x)
    obtain child k1 where x: "x = (child, k1)" by (cases x)
    let ?q1 = "q[i := set_mapping r (id child) (q ! i)] @ [child]"
    have i1: "i < length ?q1" using Cons.prems by simp
    have m: "map (shift_asset d) ?q1
        = (map (shift_asset d) q)[i := set_mapping r (id child + d) (map (shift_asset d) q ! i)]
            @ [shift_asset d child]"
      using Cons.prems by (simp add: map_update set_mapping_shift)
    have "forEach_dependencies w dn i (r # rest) (map (shift_asset d) q) (k + d)
        = forEach_dependencies w dn i rest (map (shift_asset d) ?q1) (k1 + d)"
      unfolding m using Inr x by (simp add: createAsset_shift Let_def)
    also have "\<dots> = shift_result d (forEach_dependencies w dn i rest ?q1 k1)"
      by (rule Cons.IH[OF i1])
    also have "\<dots> = shift_result d (forEach_dependencies w dn i (r # rest) q k)"
      using Inr x by (simp add: Let_def)
    finally show ?thesis .
  qed
qed

lemma shift_result_Inr:
  "shift_result d r = Inr (g', k') \<Longrightarrow> \<exists>g k. r = Inr (g, k) \<and> g' = map (shift_asset d) g \<and> k' = k + d"
  by (auto simp: shift_result_def split: sum.splits)

lemma shift_result_Inl:
  "shift_result d r = Inl e \<Longrightarrow> r = Inl e"
  by (auto simp: shift_result_def split: sum.splits)

lemma shift_mapping_reset:
  "shift_asset d (a\<lparr>mapping := Some []\<rparr>) = (shift_asset d a)\<lparr>mapping := Some []\<rparr>"
  by (simp add: shift_asset_def)

text \<open>One step of the loop on a shifted queue.\<close>

lemma loop_body_shift:
  assumes i: "i < length q"
  shows "forEach_dependencies w (path_dirname (filename (q ! i))) i (dependencies (q ! i))
           ((map (shift_asset d) q)[i := shift_asset d (q ! i)\<lparr>mapping := Some []\<rparr>]) (k + d)
         = shift_result d (forEach_dependencies w (path_dirname (filename (q ! i))) i
             (dependencies (q ! i)) (q[i := (q ! i)\<lparr>mapping := Some []\<rparr>]) k)"
proof -
  let ?q1 = "q[i := (q ! i)\<lparr>mapping := Some []\<rparr>]"
  have m: "(map (shift_asset d) q)[i := shift_asset d (q ! i)\<lparr>mapping := Some []\<rparr>]
      = map (shift_asset d) ?q1"
    using i by (simp add: map_update shift_mapping_reset)
  have i1: "i < length ?q1" using i by simp
  show ?thesis unfolding m by (rule forEach_dependencies_shift[OF i1])
qed

lemma queue_loop_shift_up:
  assumes "queue_loop w i q k = Some r"
  shows "queue_loop w i (map (shift_asset d) q) (k + d) = Some (shift_result d r)"
  using assms
proof (induction rule: queue_loop.raw_induct[rotated 1, consumes 1, case_names step])
  case (step loop w i q k r)
  show ?case
  proof (cases "i < length q")
    case True
    let ?q1 = "q[i := (q ! i)\<lparr>mapping := Some []\<rparr>]"
    let ?run = "forEach_dependencies w (path_dirname (filename (q ! i))) i (dependencies (q ! i)) ?q1 k"
    show ?thesis
    proof (cases ?run)
      case (Inl e)
      with step.hyps True have r: "r = Inl e" by (simp add: Let_def)
      show ?thesis
        by (subst queue_loop.simps) (use True loop_body_shift[OF True, of w d k] Inl r in
            \<open>simp add: Let_def shift_result_def\<close>)
    next
      case (Inr x)
      obtain q2 k2 where x: "x = (q2, k2)" by (cases x)
      with Inr step.hyps True have rec: "loop w (i + 1) q2 k2 = Some r" by (simp add: Let_def)
      from step.IH[OF rec] have IH: "queue_loop w (i + 1) (map (shift_asset d) q2) (k2 + d) = Some (shift_result d r)" .
      show ?thesis
        by (subst queue_loop.simps) (use True loop_body_shift[OF True, of w d k] Inr x IH in
            \<open>simp add: Let_def shift_result_def\<close>)
    qed
  next
    case False
    with step.hyps have "r = Inr (q, k)" by simp
    then show ?thesis
      by (subst queue_loop.simps) (use False in \<open>simp add: shift_result_def\<close>)
  qed
qed

lemma queue_loop_shift_down:
  assumes "queue_loop w i q' k' = Some r'"
  shows "q' = map (shift_asset d) q \<Longrightarrow> k' = k + d \<Longrightarrow>
         \<exists>r. queue_loop w i q k = Some r \<and> r' = shift_result d r"
  using assms
proof (induction arbitrary: q k rule: queue_loop.raw_induct[rotated 1, consumes 1, case_names step])
  case (step loop w i q' k' r')
  note q' = step.prems(1) and k' = step.prems(2)
  show ?case
  proof (cases "i < length q")
    case True
    let ?q1 = "q[i := (q ! i)\<lparr>mapping := Some []\<rparr>]"
    let ?run = "forEach_dependencies w (path_dirname (filename (q ! i))) i (dependencies (q ! i)) ?q1 k"
    show ?thesis
    proof (cases ?run)
      case (Inl e)
      from step.hyps True have "r' = Inl e"
        unfolding q' k' by (simp add: Let_def loop_body_shift[OF True, of w d k] Inl shift_result_def)
      moreover have "queue_loop w i q k = Some (Inl e)"
        by (subst queue_loop.simps) (use True Inl in \<open>simp add: Let_def\<close>)
      ultimately show ?thesis by (simp add: shift_result_def)
    next
      case (Inr x)
      obtain q2 k2 where x: "x = (q2, k2)" by (cases x)
      from step.hyps True have rec: "loop w (i + 1) (map (shift_asset d) q2) (k2 + d) = Some r'"
        unfolding q' k' by (simp add: Let_def loop_body_shift[OF True, of w d k] Inr x shift_result_def)
      from step.IH[OF rec refl refl] obtain r where
        r: "queue_loop w (i + 1) q2 k2 = Some r" "r' = shift_result d r" by blast
      have "queue_loop w i q k = Some r"
        by (subst queue_loop.simps) (use True Inr x r(1) in \<open>simp add: Let_def\<close>)
      with r(2) show ?thesis by blast
    qed
  next
    case False
    from step.hyps False have "r' = Inr (q', k')" unfolding q' by simp
    moreover have "queue_loop w i q k = Some (Inr (q, k))"
      by (subst queue_loop.simps) (use False in simp)
    ultimately show ?thesis unfolding q' k' by (simp add: shift_result_def)
  qed
qed

lemma queue_loop_shift:
  "queue_loop w i (map (shift_asset d) q) (k + d) = map_option (shift_result d) (queue_loop w i q k)"
proof (cases "queue_loop w i q k")
  case None
  show ?thesis
  proof (cases "queue_loop w i (map (shift_asset d) q) (k + d)")
    case None
    with \<open>queue_loop w i q k = None\<close> show ?thesis by simp
  next
    case (Some r')
    from queue_loop_shift_down[OF Some refl refl] None show ?thesis by simp
  qed
next
  case (Some r)
  from queue_loop_shift_up[OF Some] Some show ?thesis by simp
qed

lemma createGraph_shift_aux:
  "createGraph w entry (ID + d) = map_option (shift_result d) (createGraph w entry ID)"
proof (cases "createAsset w entry ID")
  case (Inl e)
  then show ?thesis by (simp add: createGraph_def createAsset_shift shift_result_def)
next
  case (Inr x)
  obtain a k1 where x: "x = (a, k1)" by (cases x)
  have "createGraph w entry (ID + d) = queue_loop w 0 (map (shift_asset d) [a]) (k1 + d)"
    using Inr x by (simp add: createGraph_def createAsset_shift)
  also have "\<dots> = map_option (shift_result d) (queue_loop w 0 [a] k1)"
    by (rule queue_loop_shift)
  also have "\<dots> = map_option (shift_result d) (createGraph w entry ID)"
    using Inr x by (simp add: createGraph_def)
  finally show ?thesis .
qed

text \<open>
  C9, as the code has it. \<^verbatim>\<open>createGraph\<close> does not start a counter of its own: \<^verbatim>\<open>ID\<close> is
  a variable of the module, set to 0 once, and a call goes on from the value the call
  before left. A call that returns a graph leaves the counter higher by the number of
  its assets; a second build of the same entry, made next, returns the same graph with
  that number added to every id (the ids of the assets and the ids in the mappings), so
  its entry Asset has the id the first build ended with, not 0. In general a call begun
  with the counter \<open>d\<close> higher returns every id \<open>d\<close> higher.
\<close>

theorem createGraph_second_build:
  assumes "createGraph w entry ID = Some (Inr (graph, ID1))"
  shows "ID1 = ID + length graph \<and>
         createGraph w entry ID1
           = Some (Inr (map (shift_asset (length graph)) graph, ID1 + length graph)) \<and>
         id (map (shift_asset (length graph)) graph ! 0) = ID + length graph \<and>
         (\<forall>d. createGraph w entry (ID + d) = Some (Inr (map (shift_asset d) graph, ID1 + d)))"
proof -
  note inv = createGraph_inv[OF assms]
  have k: "ID1 = ID + length graph" by (rule graph_inv_final(3)[OF inv])
  have ne: "0 < length graph" using graph_inv_final(1)[OF inv] by simp
  have sh: "createGraph w entry (ID + d) = Some (Inr (map (shift_asset d) graph, ID1 + d))" for d
    using createGraph_shift_aux[of w entry ID d] assms by (simp add: shift_result_def)
  have id0: "id (map (shift_asset (length graph)) graph ! 0) = ID + length graph"
    using ne graph_inv_final(4)[OF inv ne] by simp
  from sh[of "length graph"] k have
    "createGraph w entry ID1 = Some (Inr (map (shift_asset (length graph)) graph, ID1 + length graph))"
    by simp
  with k id0 sh show ?thesis by blast
qed

theorem createGraph_second_build_witness:
  "createGraph diamond ''/app/entry.js'' 0 = Some (Inr (diamond_graph, 5)) \<and>
   5 = 0 + length diamond_graph \<and>
   createGraph diamond ''/app/entry.js'' 5
     = Some (Inr (map (shift_asset (length diamond_graph)) diamond_graph, 5 + length diamond_graph)) \<and>
   id (map (shift_asset (length diamond_graph)) diamond_graph ! 0) = 0 + length diamond_graph"
  using createGraph_second_build[OF diamond_run] diamond_run by (intro conjI) blast+

text \<open>
  C9 as stated fails on two successive builds of the diamond: the first returns the ids
  0 to 4 and leaves the counter at 5, the second returns the ids 5 to 9, its entry Asset
  having id 5.
\<close>

theorem second_build_differs:
  "createGraph diamond ''/app/entry.js'' 0 = Some (Inr (diamond_graph, 5)) \<and>
   createGraph diamond ''/app/entry.js'' 5 = Some (Inr (diamond_graph_second, 10)) \<and>
   id (diamond_graph ! 0) = 0 \<and> id (diamond_graph_second ! 0) = 5"
proof -
  have "createGraph diamond ''/app/entry.js'' 5 = Some (Inr (diamond_graph_second, 10))"
    by code_simp
  moreover have "id (diamond_graph ! 0) = 0" "id (diamond_graph_second ! 0) = 5"
    by (simp_all add: diamond_graph_second_def diamond_graph_def shift_asset_def)
  ultimately show ?thesis using diamond_run by blast
qed

subsection \<open>Errors\<close>

lemma reachable_doomed:
  assumes "reachable w e p" "createAsset w p 0 = Inl err"
  shows "\<exists>m. doomed w m e"
  using assms unfolding reachable_def
proof (induction rule: converse_rtranclp_induct)
  case base
  then have "doomed w 0 p" by auto
  then show ?case by blast
next
  case (step x y)
  then obtain m where "doomed w m y" by blast
  with step.hyps(1) have "doomed w (Suc m) x" by auto
  then show ?case by blast
qed

lemma asset_of_not_doomed0: "asset_of w a \<Longrightarrow> \<not> doomed w 0 (filename a)"
proof
  assume a: "asset_of w a" and "doomed w 0 (filename a)"
  then obtain err where "createAsset w (filename a) 0 = Inl err" by auto
  from createAsset_Inl_any[OF this, of "id a"] a show False by (simp add: asset_of_def)
qed

text \<open>The loop ends with an error when a file waiting in the queue leads to a failing file.\<close>

lemma queue_loop_doomed:
  assumes "reach_inv w e q" "i \<le> j" "j < length q" "doomed w m (filename (q ! j))"
  shows "\<exists>err. queue_loop w i q k = Some (Inl err)"
  using assms
proof (induction m arbitrary: i j q k)
  case 0
  then have "asset_of w (q ! j)" by (simp add: reach_inv_def)
  with 0 asset_of_not_doomed0 show ?case by blast
next
  case (Suc m)
  from Suc.prems show ?case
  proof (induction "j - i" arbitrary: i q k rule: less_induct)
    case less
    have i: "i < length q" using less.prems(2,3) by simp
    define q1 where "q1 = q[i := (q ! i)\<lparr>mapping := Some []\<rparr>]"
    let ?run = "forEach_dependencies w (path_dirname (filename (q1 ! i))) i (dependencies (q1 ! i)) q1 k"
    have unfold: "queue_loop w i q k =
        (case ?run of Inl e \<Rightarrow> Some (Inl e) | Inr (q2, k2) \<Rightarrow> queue_loop w (i + 1) q2 k2)"
      by (subst queue_loop.simps) (use i in \<open>simp add: Let_def q1_def\<close>)
    show ?case
    proof (cases ?run)
      case (Inl err)
      then show ?thesis unfolding unfold by simp
    next
      case (Inr x)
      obtain q2 k2 where x: "x = (q2, k2)" by (cases x)
      have run: "?run = Inr (q2, k2)" using Inr x by simp
      have next_loop: "queue_loop w i q k = queue_loop w (i + 1) q2 k2"
        unfolding unfold run by simp
      have inv2: "reach_inv w e q2" by (rule reach_inv_step[OF less.prems(1) i q1_def run])
      have q1i: "q1 ! i = (q ! i)\<lparr>mapping := Some []\<rparr>" and i1: "i < length q1"
        using i by (simp_all add: q1_def)
      from forEach_dependencies_Inr[OF run i1] obtain cs a' where
        q2: "q2 = q1[i := a'] @ cs"
        and len: "length cs = length (dependencies (q ! i))"
        and cre: "\<forall>n<length (dependencies (q ! i)).
          createAsset w (path_join (path_dirname (filename (q ! i))) (dependencies (q ! i) ! n)) (k + n)
            = Inr (cs ! n, k + n + 1)"
        by (auto simp: q1i)
      show ?thesis
      proof (cases "i = j")
        case False
        then have lt: "i + 1 \<le> j" using less.prems(2) by simp
        have "q2 ! j = q ! j" using False less.prems(3) by (simp add: q2 q1_def nth_append)
        then have d: "doomed w (Suc m) (filename (q2 ! j))" using less.prems(4) by simp
        have j2: "j < length q2" using less.prems(3) by (simp add: q2 q1_def)
        have "j - (i + 1) < j - i" using lt by simp
        from less.hyps[OF this inv2 lt j2 d] show ?thesis unfolding next_loop .
      next
        case True
        from less.prems(4) True obtain p' where
          edge: "import_edge w (filename (q ! i)) p'" and d: "doomed w m p'" by auto
        have "asset_of w (q ! i)" using less.prems(1) i by (simp add: reach_inv_def)
        from edge asset_of_dependencies[OF this] obtain r where
          r: "r \<in> set (dependencies (q ! i))"
          and p': "p' = path_join (path_dirname (filename (q ! i))) r"
          by (auto simp: import_edge_def)
        then obtain n where n: "n < length (dependencies (q ! i))" "dependencies (q ! i) ! n = r"
          by (auto simp: in_set_conv_nth)
        from cre n(1) have "createAsset w (path_join (path_dirname (filename (q ! i)))
            (dependencies (q ! i) ! n)) (k + n) = Inr (cs ! n, k + n + 1)" by blast
        then have ca: "createAsset w p' (k + n) = Inr (cs ! n, k + n + 1)"
          unfolding p' n(2) .
        have at: "q2 ! (length q + n) = cs ! n" by (simp add: q2 q1_def nth_append)
        have fn: "filename (q2 ! (length q + n)) = p'" using createAsset_Inr(3)[OF ca] at by simp
        have d2: "doomed w m (filename (q2 ! (length q + n)))" using d fn by simp
        have j2: "length q + n < length q2" using n(1) len by (simp add: q2 q1_def)
        have le: "i + 1 \<le> length q + n" using i by simp
        from Suc.IH[OF inv2 le j2 d2] show ?thesis unfolding next_loop .
      qed
    qed
  qed
qed

lemma createGraph_doomed:
  assumes "doomed w m e"
  shows "\<exists>err. createGraph w e ID = Some (Inl err)"
proof (cases "createAsset w e ID")
  case (Inl err)
  then show ?thesis by (simp add: createGraph_def)
next
  case (Inr x)
  obtain a k1 where x: "x = (a, k1)" by (cases x)
  have ca: "createAsset w e ID = Inr (a, k1)" using Inr x by simp
  have inv: "reach_inv w e [a]"
    using createAsset_Inr(3)[OF ca] createAsset_asset_of[OF ca]
    by (simp add: reach_inv_def reachable_refl)
  have d: "doomed w m (filename ([a] ! 0))" using assms createAsset_Inr(3)[OF ca] by simp
  from queue_loop_doomed[OF inv _ _ d, of 0 k1] obtain err where
    "queue_loop w 0 [a] k1 = Some (Inl err)" by auto
  then show ?thesis using ca by (simp add: createGraph_def)
qed


subsection \<open>The first error of the traversal\<close>

lemma fails_iff: "fails w p \<longleftrightarrow> (\<exists>err. createAsset w p k = Inl err)"
proof
  assume "fails w p"
  then obtain err where "createAsset w p 0 = Inl err" by (auto simp: fails_def isl_def)
  from createAsset_Inl_any[OF this] show "\<exists>err. createAsset w p k = Inl err" by blast
next
  assume "\<exists>err. createAsset w p k = Inl err"
  then obtain err where "createAsset w p k = Inl err" by blast
  from createAsset_Inl_any[OF this, of 0] show "fails w p" by (simp add: fails_def)
qed

lemma visit_order_append:
  "visit_order w (length xs + m) (xs @ ys) = xs @ visit_order w m (ys @ concat (map (children w) xs))"
proof (induction xs arbitrary: ys)
  case Nil
  then show ?case by simp
next
  case (Cons x xs)
  have "visit_order w (length (x # xs) + m) ((x # xs) @ ys)
      = x # visit_order w (length xs + m) (xs @ (ys @ children w x))" by simp
  also have "\<dots> = x # xs @ visit_order w m ((ys @ children w x) @ concat (map (children w) xs))"
    by (simp only: Cons.IH)
  finally show ?case by simp
qed

lemma visit_order_take:
  "n \<le> length xs \<Longrightarrow> visit_order w n xs = take n xs"
proof -
  assume n: "n \<le> length xs"
  have "visit_order w (length (take n xs) + 0) (take n xs @ drop n xs)
      = take n xs @ visit_order w 0 (drop n xs @ concat (map (children w) (take n xs)))"
    by (rule visit_order_append)
  then show ?thesis using n by simp
qed

lemma find_append_none:
  "List.find P xs = None \<Longrightarrow> List.find P (xs @ ys) = List.find P ys"
  by (induction xs) (auto split: if_splits)

lemma find_none_iff_all: "List.find P xs = None \<longleftrightarrow> (\<forall>x\<in>set xs. \<not> P x)"
  by (induction xs) auto

text \<open>The failing dependency of the inner loop is the first one that cannot be extracted.\<close>

lemma forEach_dependencies_Inl_first:
  assumes "forEach_dependencies w d i deps q k = Inl err"
  shows "\<exists>n<length deps. (\<forall>n'<n. \<not> fails w (path_join d (deps ! n'))) \<and>
           (\<forall>k'. createAsset w (path_join d (deps ! n)) k' = Inl err)"
  using assms
proof (induction deps arbitrary: q k)
  case Nil
  then show ?case by simp
next
  case (Cons r rest)
  show ?case
  proof (cases "createAsset w (path_join d r) k")
    case (Inl e)
    with Cons.prems have "e = err" by (simp add: Let_def)
    with Inl have "\<forall>k'. createAsset w (path_join d r) k' = Inl err"
      using createAsset_Inl_any[of w "path_join d r" k err] by simp
    then show ?thesis by (intro exI[of _ 0]) simp
  next
    case (Inr x)
    obtain child k1 where x: "x = (child, k1)" by (cases x)
    have ok: "\<not> fails w (path_join d r)"
      using Inr by (auto simp: fails_iff[of w _ k])
    from Cons.prems Inr x have
      "forEach_dependencies w d i rest
         (q[i := set_mapping r (id child) (q ! i)] @ [child]) k1 = Inl err"
      by (simp add: Let_def)
    from Cons.IH[OF this] obtain n where n: "n < length rest"
      "\<forall>n'<n. \<not> fails w (path_join d (rest ! n'))"
      "\<forall>k'. createAsset w (path_join d (rest ! n)) k' = Inl err" by blast
    have "\<forall>n'<Suc n. \<not> fails w (path_join d ((r # rest) ! n'))"
    proof (intro allI impI)
      fix n' assume "n' < Suc n"
      then show "\<not> fails w (path_join d ((r # rest) ! n'))"
        using ok n(2) by (cases n') simp_all
    qed
    with n(1,3) show ?thesis by (intro exI[of _ "Suc n"]) simp
  qed
qed

lemma asset_of_not_fails: "asset_of w a \<Longrightarrow> \<not> fails w (filename a)"
  by (auto simp: fails_iff[of w _ "id a"] asset_of_def)

lemma reach_inv_no_fail:
  assumes "reach_inv w e q"
  shows "List.find (fails w) (map filename (drop j q)) = None"
proof -
  have "\<forall>x\<in>set (map filename (drop j q)). \<not> fails w x"
  proof
    fix x assume "x \<in> set (map filename (drop j q))"
    then obtain a where "a \<in> set (drop j q)" "x = filename a" by auto
    then have "a \<in> set q" by (meson in_set_dropD)
    with assms \<open>x = filename a\<close> show "\<not> fails w x"
      by (auto simp: reach_inv_def asset_of_not_fails)
  qed
  then show ?thesis by (simp add: find_none_iff_all)
qed

lemma find_first_failure:
  assumes n0: "n0 < length cs" and ok: "\<forall>n'<n0. \<not> fails w (cs ! n')" and bad: "fails w (cs ! n0)"
  shows "List.find (fails w) (take (Suc n0) cs) = Some (cs ! n0)"
proof -
  have t: "take (Suc n0) cs = take n0 cs @ [cs ! n0]" using n0 by (rule take_Suc_conv_app_nth)
  have "\<forall>x\<in>set (take n0 cs). \<not> fails w x"
  proof
    fix x assume "x \<in> set (take n0 cs)"
    then obtain m where "m < length (take n0 cs)" "take n0 cs ! m = x" by (auto simp: in_set_conv_nth)
    then have "m < n0" "cs ! m = x" by simp_all
    with ok show "\<not> fails w x" by blast
  qed
  then have "List.find (fails w) (take n0 cs) = None" by (simp add: find_none_iff_all)
  from find_append_none[OF this, of "[cs ! n0]"] bad show ?thesis unfolding t by simp
qed

lemma children_of_asset:
  assumes "asset_of w a"
  shows "children w (filename a) = map (path_join (path_dirname (filename a))) (dependencies a)"
  using asset_of_dependencies[OF assms] by (simp add: children_def)

lemma queue_loop_first_failure:
  assumes "queue_loop w i q k = Some r"
  shows "reach_inv w e q \<Longrightarrow> r = Inl err \<Longrightarrow>
         \<exists>n p'. List.find (fails w) (visit_order w n (map filename (drop i q))) = Some p' \<and>
                (\<forall>k'. createAsset w p' k' = Inl err)"
  using assms
proof (induction rule: queue_loop.raw_induct[rotated 1, consumes 1, case_names step])
  case (step loop w i q k r)
  show ?case
  proof (cases "i < length q")
    case False
    with step.hyps(1) step.prems(2) show ?thesis by simp
  next
    case True
    define q1 where "q1 = q[i := (q ! i)\<lparr>mapping := Some []\<rparr>]"
    define p where "p = filename (q ! i)"
    define rest where "rest = map filename (drop (Suc i) q)"
    define cs where "cs = children w p"
    have q1i: "q1 ! i = (q ! i)\<lparr>mapping := Some []\<rparr>" and i1: "i < length q1"
      using True by (simp_all add: q1_def)
    have a_i: "asset_of w (q ! i)" using step.prems(1) True by (simp add: reach_inv_def)
    have cs: "cs = map (path_join (path_dirname p)) (dependencies (q ! i))"
      unfolding cs_def p_def by (rule children_of_asset[OF a_i])
    have dr: "map filename (drop i q) = p # rest"
      using True by (simp add: p_def rest_def Cons_nth_drop_Suc[symmetric])
    have p_ok: "\<not> fails w p" unfolding p_def by (rule asset_of_not_fails[OF a_i])
    have rest_ok: "List.find (fails w) rest = None"
      unfolding rest_def by (rule reach_inv_no_fail[OF step.prems(1)])
    let ?run = "forEach_dependencies w (path_dirname (filename (q1 ! i))) i (dependencies (q1 ! i)) q1 k"
    show ?thesis
    proof (cases ?run)
      case (Inl err')
      with step.hyps(1) True have "r = Inl err'" by (simp add: Let_def q1_def)
      with step.prems(2) have e: "err' = err" by simp
      from forEach_dependencies_Inl_first[OF Inl] obtain n0 where
        n0: "n0 < length (dependencies (q ! i))"
        and ok: "\<forall>n'<n0. \<not> fails w (path_join (path_dirname p) (dependencies (q ! i) ! n'))"
        and bad: "\<forall>k'. createAsset w (path_join (path_dirname p) (dependencies (q ! i) ! n0)) k' = Inl err"
        unfolding e by (auto simp: q1i p_def)
      have len: "n0 < length cs" using n0 by (simp add: cs)
      have ok': "\<forall>n'<n0. \<not> fails w (cs ! n')" using ok n0 by (simp add: cs)
      have bad': "\<forall>k'. createAsset w (cs ! n0) k' = Inl err" using bad n0 by (simp add: cs)
      then have f: "fails w (cs ! n0)" by (auto simp: fails_iff[of w _ 0])
      let ?n = "Suc (length rest + Suc n0)"
      have "visit_order w ?n (p # rest) = p # visit_order w (length rest + Suc n0) (rest @ cs)"
        by (simp add: cs_def)
      also have "visit_order w (length rest + Suc n0) (rest @ cs)
          = rest @ visit_order w (Suc n0) (cs @ concat (map (children w) rest))"
        by (rule visit_order_append)
      also have "visit_order w (Suc n0) (cs @ concat (map (children w) rest))
          = take (Suc n0) (cs @ concat (map (children w) rest))"
        by (rule visit_order_take) (use len in simp)
      also have "\<dots> = take (Suc n0) cs" using len by simp
      finally have vo: "visit_order w ?n (p # rest) = p # rest @ take (Suc n0) cs" .
      have "List.find (fails w) (p # rest @ take (Suc n0) cs) = Some (cs ! n0)"
        using p_ok find_append_none[OF rest_ok] find_first_failure[OF len ok' f] by simp
      with vo dr bad' show ?thesis by metis
    next
      case (Inr x)
      obtain q2 k2 where x: "x = (q2, k2)" by (cases x)
      have run: "?run = Inr (q2, k2)" using Inr x by simp
      with step.hyps(1) True have rec: "loop w (i + 1) q2 k2 = Some r"
        by (simp add: Let_def q1_def)
      have inv2: "reach_inv w e q2" by (rule reach_inv_step[OF step.prems(1) True q1_def run])
      from step.IH[OF rec inv2 step.prems(2)] obtain n p' where
        IH: "List.find (fails w) (visit_order w n (map filename (drop (i + 1) q2))) = Some p'"
        "\<forall>k'. createAsset w p' k' = Inl err" by blast
      from forEach_dependencies_Inr[OF run i1] obtain cs' a' where
        q2: "q2 = q1[i := a'] @ cs'"
        and len: "length cs' = length (dependencies (q ! i))"
        and cre: "\<forall>n<length (dependencies (q ! i)).
          createAsset w (path_join (path_dirname p) (dependencies (q ! i) ! n)) (k + n)
            = Inr (cs' ! n, k + n + 1)"
        by (auto simp: q1i p_def)
      have fcs: "map filename cs' = cs"
      proof (rule nth_equalityI)
        show "length (map filename cs') = length cs" using len by (simp add: cs)
      next
        fix n assume "n < length (map filename cs')"
        then have n: "n < length (dependencies (q ! i))" using len by simp
        from cre n have "createAsset w (path_join (path_dirname p) (dependencies (q ! i) ! n)) (k + n)
            = Inr (cs' ! n, k + n + 1)" by blast
        from createAsset_Inr(3)[OF this] show "map filename cs' ! n = cs ! n"
          using n len by (simp add: cs)
      qed
      have "drop (Suc i) q2 = drop (Suc i) q @ cs'"
        using True by (simp add: q2 q1_def drop_update_cancel)
      then have d2: "map filename (drop (i + 1) q2) = rest @ cs"
        by (simp add: rest_def fcs)
      have "visit_order w (Suc n) (p # rest) = p # visit_order w n (rest @ cs)"
        by (simp add: cs_def)
      then have "List.find (fails w) (visit_order w (Suc n) (map filename (drop i q))) = Some p'"
        using IH(1) p_ok unfolding dr d2 by simp
      with IH(2) show ?thesis by blast
    qed
  qed
qed

lemma createGraph_first_failure:
  assumes "createGraph w e ID = Some (Inl err)"
  shows "\<exists>n p'. List.find (fails w) (visit_order w n [e]) = Some p' \<and>
           (\<forall>k'. createAsset w p' k' = Inl err)"
proof (cases "createAsset w e ID")
  case (Inl err')
  with assms have "err' = err" by (simp add: createGraph_def)
  with Inl have all: "\<forall>k'. createAsset w e k' = Inl err"
    using createAsset_Inl_any[of w e ID err] by simp
  then have "fails w e" by (auto simp: fails_iff[of w _ 0])
  then have "List.find (fails w) (visit_order w (Suc 0) [e]) = Some e" by simp
  with all show ?thesis by blast
next
  case (Inr x)
  obtain a k1 where x: "x = (a, k1)" by (cases x)
  have ca: "createAsset w e ID = Inr (a, k1)" using Inr x by simp
  with assms have loop: "queue_loop w 0 [a] k1 = Some (Inl err)" by (simp add: createGraph_def)
  have inv: "reach_inv w e [a]"
    using createAsset_Inr(3)[OF ca] createAsset_asset_of[OF ca]
    by (simp add: reach_inv_def reachable_refl)
  from queue_loop_first_failure[OF loop inv refl] createAsset_Inr(3)[OF ca]
  show ?thesis by simp
qed

lemma createGraph_fails_general:
  assumes "reachable w entry p" "fails w p"
  shows "\<exists>err n p'. createGraph w entry ID = Some (Inl err) \<and>
           List.find (fails w) (visit_order w n [entry]) = Some p' \<and>
           (\<forall>k. createAsset w p' k = Inl err)"
proof -
  from assms(2) obtain e0 where "createAsset w p 0 = Inl e0" by (auto simp: fails_def isl_def)
  from reachable_doomed[OF assms(1) this] obtain m where "doomed w m entry" by blast
  from createGraph_doomed[OF this] obtain err where r: "createGraph w entry ID = Some (Inl err)"
    by blast
  from createGraph_first_failure[OF r] r show ?thesis by blast
qed

lemma visit_order_prefix: "visit_order w m xs = take m (visit_order w (m + d) xs)"
proof (induction m arbitrary: xs)
  case 0
  show ?case by simp
next
  case (Suc m)
  show ?case
  proof (cases xs)
    case Nil
    then show ?thesis by simp
  next
    case (Cons p ps)
    show ?thesis unfolding Cons using Suc[of "ps @ children w p"] by simp
  qed
qed

lemma find_take_Some: "List.find P (take m ys) = Some x \<Longrightarrow> List.find P ys = Some x"
proof (induction ys arbitrary: m)
  case Nil
  then show ?case by simp
next
  case (Cons y ys)
  then show ?case by (cases m) (auto split: if_splits)
qed

lemma find_take_cases:
  "List.find P ys = Some x \<Longrightarrow> List.find P (take m ys) = None \<or> List.find P (take m ys) = Some x"
proof (induction ys arbitrary: m)
  case Nil
  then show ?case by simp
next
  case (Cons y ys)
  then show ?case by (cases m) (auto split: if_splits)
qed

text \<open>The first failing file is the same in every prefix of the traversal that has one.\<close>

lemma first_failure_fixed:
  assumes "List.find P (visit_order w n xs) = Some p'"
  shows "List.find P (visit_order w m xs) = None \<or> List.find P (visit_order w m xs) = Some p'"
proof (cases "m \<le> n")
  case True
  then obtain d where n: "n = m + d" by (auto simp: le_iff_add)
  have "visit_order w m xs = take m (visit_order w n xs)" unfolding n by (rule visit_order_prefix)
  with find_take_cases[OF assms, of m] show ?thesis by simp
next
  case False
  then have "n \<le> m" by simp
  then obtain d where m: "m = n + d" by (auto simp: le_iff_add)
  have "visit_order w n xs = take n (visit_order w m xs)" unfolding m by (rule visit_order_prefix)
  with assms have "List.find P (take n (visit_order w m xs)) = Some p'" by simp
  from find_take_Some[OF this] show ?thesis by simp
qed

lemma createGraph_first_error:
  assumes "reachable w entry p" "fails w p"
  shows "\<exists>err n p'. createGraph w entry ID = Some (Inl err) \<and>
           List.find (fails w) (visit_order w n [entry]) = Some p' \<and>
           (\<forall>m. List.find (fails w) (visit_order w m [entry]) = None \<or>
                List.find (fails w) (visit_order w m [entry]) = Some p') \<and>
           createAsset w p' ID = Inl err"
proof -
  from createGraph_fails_general[OF assms, of ID] obtain err n p' where
    r: "createGraph w entry ID = Some (Inl err)"
    and f: "List.find (fails w) (visit_order w n [entry]) = Some p'"
    and all: "\<forall>k. createAsset w p' k = Inl err" by blast
  have u: "\<forall>m. List.find (fails w) (visit_order w m [entry]) = None \<or>
                List.find (fails w) (visit_order w m [entry]) = Some p'"
    using first_failure_fixed[OF f] by blast
  have c: "createAsset w p' ID = Inl err" using all by blast
  show ?thesis by (intro exI[of _ err] exI[of _ n] exI[of _ p'] conjI r f u c)
qed







subsection \<open>Import cycles\<close>

lemma not_fails_iff: "\<not> fails w q \<longleftrightarrow> (\<exists>a k. createAsset w q 0 = Inr (a, k))"
  by (cases "createAsset w q 0") (auto simp: fails_def)

text \<open>
  C2, as the code has it. When an import cycle is reachable from the entry,
  \<^verbatim>\<open>createGraph\<close> never returns a graph. If no reachable file fails, the call does not
  terminate. If a reachable file fails, the call ends with an error, the one that
  \<^verbatim>\<open>createAsset\<close> throws for the first failing file of the traversal: some prefix of the
  traversal has that file as its first failing file, and no prefix has another.
\<close>

theorem createGraph_cycle_diverges:
  assumes "reachable w entry p" "tranclp (import_edge w) p p"
  shows "(\<forall>g k. createGraph w entry ID \<noteq> Some (Inr (g, k))) \<and>
         ((\<forall>q. reachable w entry q \<longrightarrow> \<not> fails w q) \<longrightarrow> createGraph w entry ID = None) \<and>
         (\<forall>q. reachable w entry q \<and> fails w q \<longrightarrow>
            (\<exists>err n p'. createGraph w entry ID = Some (Inl err) \<and>
               List.find (fails w) (visit_order w n [entry]) = Some p' \<and>
               (\<forall>m. List.find (fails w) (visit_order w m [entry]) = None \<or>
                    List.find (fails w) (visit_order w m [entry]) = Some p') \<and>
               createAsset w p' ID = Inl err))"
proof -
  have a: "\<forall>g k. createGraph w entry ID \<noteq> Some (Inr (g, k))"
    using createGraph_no_cycle[OF _ assms] by blast
  have b: "(\<forall>q. reachable w entry q \<longrightarrow> \<not> fails w q) \<longrightarrow> createGraph w entry ID = None"
  proof
    assume "\<forall>q. reachable w entry q \<longrightarrow> \<not> fails w q"
    then have "\<forall>q. reachable w entry q \<longrightarrow> (\<exists>a k. createAsset w q 0 = Inr (a, k))"
      unfolding not_fails_iff .
    from createGraph_cycle_None[OF assms this] show "createGraph w entry ID = None" .
  qed
  have c: "\<forall>q. reachable w entry q \<and> fails w q \<longrightarrow>
            (\<exists>err n p'. createGraph w entry ID = Some (Inl err) \<and>
               List.find (fails w) (visit_order w n [entry]) = Some p' \<and>
               (\<forall>m. List.find (fails w) (visit_order w m [entry]) = None \<or>
                    List.find (fails w) (visit_order w m [entry]) = Some p') \<and>
               createAsset w p' ID = Inl err)"
  proof (intro allI impI)
    fix q assume q: "reachable w entry q \<and> fails w q"
    then have q1: "reachable w entry q" and q2: "fails w q" by simp_all
    show "\<exists>err n p'. createGraph w entry ID = Some (Inl err) \<and>
               List.find (fails w) (visit_order w n [entry]) = Some p' \<and>
               (\<forall>m. List.find (fails w) (visit_order w m [entry]) = None \<or>
                    List.find (fails w) (visit_order w m [entry]) = Some p') \<and>
               createAsset w p' ID = Inl err"
      by (rule createGraph_first_error[OF q1 q2])
  qed
  show ?thesis by (intro conjI a b c)
qed

lemma cycle_missing_edges:
  "import_edge cycle_missing ''/app/a.js'' ''/app/b.js''"
  "import_edge cycle_missing ''/app/a.js'' ''/app/gone.js''"
  "import_edge cycle_missing ''/app/b.js'' ''/app/a.js''"
proof -
  have a: "imports_of cycle_missing ''/app/a.js'' = [''./b.js'', ''./gone.js'']" by code_simp
  have b: "imports_of cycle_missing ''/app/b.js'' = [''./a.js'']" by code_simp
  have pa: "path_join (path_dirname ''/app/a.js'') ''./b.js'' = ''/app/b.js''" by code_simp
  have pg: "path_join (path_dirname ''/app/a.js'') ''./gone.js'' = ''/app/gone.js''" by code_simp
  have pb: "path_join (path_dirname ''/app/b.js'') ''./a.js'' = ''/app/a.js''" by code_simp
  show "import_edge cycle_missing ''/app/a.js'' ''/app/b.js''"
    by (simp add: import_edge_def a pa)
  show "import_edge cycle_missing ''/app/a.js'' ''/app/gone.js''"
    by (simp add: import_edge_def a pg)
  show "import_edge cycle_missing ''/app/b.js'' ''/app/a.js''"
    by (simp add: import_edge_def b pb)
qed

lemma cycle_missing_loop: "tranclp (import_edge cycle_missing) ''/app/a.js'' ''/app/a.js''"
  using cycle_missing_edges(1,3) by (rule tranclp.intros(2)[OF tranclp.intros(1)])

lemma cycle_missing_gone: "reachable cycle_missing ''/app/a.js'' ''/app/gone.js''"
  unfolding reachable_def using cycle_missing_edges(2) by (rule r_into_rtranclp)

lemma cycle_missing_fails: "fails cycle_missing ''/app/gone.js''"
  by code_simp

lemma cycle_no_fail: "\<forall>q. reachable cycle ''/app/a.js'' q \<longrightarrow> \<not> fails cycle q"
  unfolding not_fails_iff by (rule cycle_files_ok)

lemma cycle_missing_visit:
  "visit_order cycle_missing 3 [''/app/a.js''] = [''/app/a.js'', ''/app/b.js'', ''/app/gone.js'']"
  by code_simp

lemma cycle_missing_find:
  "List.find (fails cycle_missing) [''/app/a.js'', ''/app/b.js'', ''/app/gone.js'']
     = Some ''/app/gone.js''"
  by code_simp

theorem createGraph_cycle_diverges_witness:
  "reachable cycle ''/app/a.js'' ''/app/a.js'' \<and>
   tranclp (import_edge cycle) ''/app/a.js'' ''/app/a.js'' \<and>
   createGraph cycle ''/app/a.js'' 7 = None \<and>
   reachable cycle_missing ''/app/a.js'' ''/app/a.js'' \<and>
   tranclp (import_edge cycle_missing) ''/app/a.js'' ''/app/a.js'' \<and>
   reachable cycle_missing ''/app/a.js'' ''/app/gone.js'' \<and>
   fails cycle_missing ''/app/gone.js'' \<and>
   visit_order cycle_missing 3 [''/app/a.js''] = [''/app/a.js'', ''/app/b.js'', ''/app/gone.js''] \<and>
   List.find (fails cycle_missing) (visit_order cycle_missing 3 [''/app/a.js''])
     = Some ''/app/gone.js'' \<and>
   createAsset cycle_missing ''/app/gone.js'' 0 = Inl (ReadError ''/app/gone.js'') \<and>
   createGraph cycle_missing ''/app/a.js'' 0 = Some (Inl (ReadError ''/app/gone.js''))"
proof -
  note t1 = createGraph_cycle_diverges[OF reachable_refl cycle_loop, of 7]
  have none: "createGraph cycle ''/app/a.js'' 7 = None"
    using t1[THEN conjunct2, THEN conjunct1] cycle_no_fail by blast
  note t2 = createGraph_cycle_diverges[OF reachable_refl cycle_missing_loop, of 0]
  have gone: "reachable cycle_missing ''/app/a.js'' ''/app/gone.js'' \<and> fails cycle_missing ''/app/gone.js''"
    by (intro conjI cycle_missing_gone cycle_missing_fails)
  from t2[THEN conjunct2, THEN conjunct2, rule_format, OF gone]
  obtain err n p' where
    all: "createGraph cycle_missing ''/app/a.js'' 0 = Some (Inl err) \<and>
      List.find (fails cycle_missing) (visit_order cycle_missing n [''/app/a.js'']) = Some p' \<and>
      (\<forall>m. List.find (fails cycle_missing) (visit_order cycle_missing m [''/app/a.js'']) = None \<or>
           List.find (fails cycle_missing) (visit_order cycle_missing m [''/app/a.js'']) = Some p') \<and>
      createAsset cycle_missing p' 0 = Inl err"
    by (elim exE) (rule that)
  note cg = all[THEN conjunct1]
  note u = all[THEN conjunct2, THEN conjunct2, THEN conjunct1]
  note ca = all[THEN conjunct2, THEN conjunct2, THEN conjunct2]
  from u[rule_format, of 3] have p': "p' = ''/app/gone.js''"
    unfolding cycle_missing_visit cycle_missing_find by simp
  have "createAsset cycle_missing ''/app/gone.js'' 0 = Inl (ReadError ''/app/gone.js'')"
    by code_simp
  with ca have err: "err = ReadError ''/app/gone.js''" unfolding p' by simp
  have f: "List.find (fails cycle_missing) (visit_order cycle_missing 3 [''/app/a.js''])
     = Some ''/app/gone.js''" unfolding cycle_missing_visit by (rule cycle_missing_find)
  show ?thesis
    by (intro conjI reachable_refl cycle_loop none cycle_missing_loop cycle_missing_gone
        cycle_missing_fails cycle_missing_visit f ca[unfolded err p'] cg[unfolded err])
qed

text \<open>
  C2 as stated fails on the cycle of two files, both on the disk: the call does not
  return.
\<close>

theorem cycle_never_returns:
  "readFileSync cycle ''/app/a.js'' = Some ''import './b.js';'' \<and>
   readFileSync cycle ''/app/b.js'' = Some ''import './a.js';'' \<and>
   createGraph cycle ''/app/a.js'' 0 = None"
proof -
  have "readFileSync cycle ''/app/a.js'' = Some ''import './b.js';''" by code_simp
  moreover have "readFileSync cycle ''/app/b.js'' = Some ''import './a.js';''" by code_simp
  ultimately show ?thesis using cycle_None by blast
qed

subsection \<open>Running the bundle\<close>

lemma extends_refl: "extends s s"
  by (simp add: extends_def)

lemma extends_trans: "extends s s' \<Longrightarrow> extends s' s'' \<Longrightarrow> extends s s''"
  by (auto simp: extends_def)

lemma run_body_extends:
  assumes req: "\<And>name s v s'. req name s = Some (v, s') \<Longrightarrow> extends s s'"
  shows "run_body req b s = Some s' \<Longrightarrow> extends s s'"
proof (induction b arbitrary: s)
  case Return
  then show ?case by (simp add: extends_refl)
next
  case Throw
  then show ?case by simp
next
  case (Require name k)
  from Require.prems obtain v s1 where r: "req name s = Some (v, s1)"
    and rest: "run_body req (k v) s1 = Some s'"
    by (auto split: option.splits)
  from req[OF r] Require.IH[OF _ rest] show ?case by (auto intro: extends_trans)
next
  case (NewObject k)
  let ?s1 = "s\<lparr>heap := heap s @ [ [] ]\<rparr>"
  from NewObject.prems have "run_body req (k (length (heap s))) ?s1 = Some s'" by simp
  from NewObject.IH[OF _ this] have "extends ?s1 s'" by blast
  moreover have "extends s ?s1" by (simp add: extends_def)
  ultimately show ?case by (rule extends_trans[rotated])
next
  case (GetProp a key k)
  then show ?case by (auto split: if_splits)
next
  case (SetProp a key v b)
  let ?s1 = "s\<lparr>heap := (heap s)[a := AList.update key v (heap s ! a)]\<rparr>"
  from SetProp.prems have "run_body req b ?s1 = Some s'" by (simp split: if_splits)
  from SetProp.IH[OF this] have "extends ?s1 s'" .
  moreover have "extends s ?s1" by (simp add: extends_def)
  ultimately show ?case by (rule extends_trans[rotated])
qed

text \<open>A call of \<^verbatim>\<open>require\<close> that returns: what it allocated and what it recorded.\<close>

lemma require_rt_returns:
  "require_rt exec n modules idx s = Some (v, s') \<Longrightarrow>
     \<exists>i fn mp rest. idx = Some i \<and> modules i = Some (fn, mp) \<and>
        invoked s' = invoked s @ (i, fn, Suc (length (heap s)), length (heap s)) # rest \<and>
        length (heap s) + 2 \<le> length (heap s')"
proof (induction n arbitrary: idx s v s')
  case 0
  then show ?case by simp
next
  case (Suc n)
  from Suc.prems obtain i where idx: "idx = Some i" by (cases idx) simp_all
  from Suc.prems idx obtain fn mp where m: "modules i = Some (fn, mp)"
    by (cases "modules i") auto
  define localRequire where "localRequire =
    (\<lambda>name. case mp of None \<Rightarrow> (\<lambda>s. None) | Some m \<Rightarrow> require_rt exec n modules (map_of m name))"
  define s2 where "s2 = s\<lparr>heap := heap s @ [ [], [(''exports'', Ref (length (heap s)))]],
      invoked := invoked s @ [(i, fn, Suc (length (heap s)), length (heap s))]\<rparr>"
  from Suc.prems idx m have run: "run_body localRequire (exec fn (Suc (length (heap s))) (length (heap s))) s2 = Some s'"
    by (auto simp: Let_def localRequire_def s2_def split: option.splits if_splits)
  have "extends s2 s'"
  proof (rule run_body_extends[OF _ run])
    fix name t v' t' assume lr: "localRequire name t = Some (v', t')"
    then obtain m where "mp = Some m" "require_rt exec n modules (map_of m name) t = Some (v', t')"
      by (cases mp) (simp_all add: localRequire_def)
    from Suc.IH[OF this(2)] show "extends t t'" by (auto simp: extends_def)
  qed
  then obtain rest where "invoked s' = invoked s2 @ rest" "length (heap s2) \<le> length (heap s')"
    by (auto simp: extends_def)
  then have "invoked s' = invoked s @ (i, fn, Suc (length (heap s)), length (heap s)) # rest"
    "length (heap s) + 2 \<le> length (heap s')"
    by (simp_all add: s2_def)
  with idx m show ?case by blast
qed

lemma map_of_rev_distinct:
  "distinct (map fst xs) \<Longrightarrow> map_of (rev xs) = map_of xs"
proof (induction xs)
  case Nil
  then show ?case by simp
next
  case (Cons x xs)
  then have IH: "map_of (rev xs) = map_of xs" and nin: "map_of xs (fst x) = None"
    by (simp_all add: map_of_eq_None_iff)
  show ?case
  proof (rule ext)
    fix k
    show "map_of (rev (x # xs)) k = map_of (x # xs) k"
      using nin by (cases x) (auto simp: IH map_add_def split: option.splits)
  qed
qed

lemma require_rt_extends:
  "require_rt exec n modules idx s = Some (v, s') \<Longrightarrow> extends s s'"
  using require_rt_returns[of exec n modules idx s v s'] by (auto simp: extends_def)

lemma local_require_extends:
  "local_require exec n modules mp name s = Some (v, s') \<Longrightarrow> extends s s'"
  by (cases mp) (auto simp: local_require_def dest: require_rt_extends)

lemma extends_enter: "extends s (enter i fn s)"
  by (simp add: extends_def enter_def)

lemma length_heap_enter [simp]: "length (heap (enter i fn s)) = length (heap s) + 2"
  by (simp add: enter_def)

text \<open>One call of \<^verbatim>\<open>require\<close>, spelled out: the module function runs on the two new objects.\<close>

lemma require_rt_Suc:
  "require_rt exec (Suc n) modules (Some i) s =
     (case modules i of
        None \<Rightarrow> None
      | Some (fn, mp) \<Rightarrow>
          (case run_body (local_require exec n modules mp)
                  (exec fn (Suc (length (heap s))) (length (heap s))) (enter i fn s) of
             None \<Rightarrow> None
           | Some s' \<Rightarrow> Some (module_exports s' (Suc (length (heap s))), s')))"
proof (cases "modules i")
  case None
  then show ?thesis by simp
next
  case (Some x)
  obtain fn mp where x: "x = (fn, mp)" by (cases x)
  let ?lr = "local_require exec n modules mp"
  let ?b = "exec fn (Suc (length (heap s))) (length (heap s))"
  have lr: "(\<lambda>name. case mp of None \<Rightarrow> (\<lambda>s. None)
              | Some m \<Rightarrow> require_rt exec n modules (map_of m name)) = ?lr"
    by (rule ext) (simp add: local_require_def)
  have en: "s\<lparr>heap := heap s @ [ [] ]\<rparr>\<lparr>heap := heap (s\<lparr>heap := heap s @ [ [] ]\<rparr>) @
              [ [(''exports'', Ref (length (heap s)))] ],
            invoked := invoked (s\<lparr>heap := heap s @ [ [] ]\<rparr>) @
              [(i, fn, length (heap (s\<lparr>heap := heap s @ [ [] ]\<rparr>)), length (heap s))]\<rparr>
          = enter i fn s"
    by (simp add: enter_def)
  show ?thesis
  proof (cases "run_body ?lr ?b (enter i fn s)")
    case None
    then show ?thesis using Some x lr en by (simp add: Let_def)
  next
    case (Some s')
    have "extends (enter i fn s) s'"
      by (rule run_body_extends[OF _ Some]) (rule local_require_extends)
    then have "Suc (length (heap s)) < length (heap s')" by (simp add: extends_def)
    then show ?thesis using Some \<open>modules i = Some x\<close> x lr en
      by (simp add: Let_def module_exports_def)
  qed
qed










subsection \<open>The text of the bundle and its registry\<close>

lemma digit_char: "k < 10 \<Longrightarrow> (of_char (''0123456789'' ! k) :: nat) = 48 + k"
proof -
  assume "k < 10"
  then consider "k = 0" | "k = 1" | "k = 2" | "k = 3" | "k = 4" | "k = 5" | "k = 6" | "k = 7"
    | "k = 8" | "k = 9" by atomize_elim arith
  then show ?thesis by cases simp_all
qed

lemma digit_char_mem: "k < 10 \<Longrightarrow> ''0123456789'' ! k \<in> set ''0123456789''"
  by (rule nth_mem) simp

lemma decimal_value_snoc: "decimal_value (cs @ [c]) = 10 * decimal_value cs + (of_char c - 48)"
  by (simp add: decimal_value_def)

lemma string_of_nat_decimal:
  "decimal_value (string_of_nat n) = n \<and>
   list_all (\<lambda>c. c \<in> set ''0123456789'') (string_of_nat n) \<and> string_of_nat n \<noteq> []"
proof (induction n rule: string_of_nat.induct)
  case (1 n)
  show ?case
  proof (cases "n < 10")
    case True
    then have s: "string_of_nat n = [''0123456789'' ! n]" by (subst string_of_nat.simps) simp
    show ?thesis unfolding s using digit_char[OF True] digit_char_mem[OF True]
      by (simp add: decimal_value_def)
  next
    case False
    then have s: "string_of_nat n = string_of_nat (n div 10) @ [''0123456789'' ! (n mod 10)]"
      by (subst string_of_nat.simps) simp
    have m: "n mod 10 < 10" by simp
    from 1[OF False] have IH: "decimal_value (string_of_nat (n div 10)) = n div 10"
      "list_all (\<lambda>c. c \<in> set ''0123456789'') (string_of_nat (n div 10))" by simp_all
    have "decimal_value (string_of_nat n) = 10 * (n div 10) + n mod 10"
      unfolding s decimal_value_snoc IH(1) using digit_char[OF m] by simp
    then have "decimal_value (string_of_nat n) = n" by simp
    moreover have "list_all (\<lambda>c. c \<in> set ''0123456789'') (string_of_nat n)"
      unfolding s using IH(2) digit_char_mem[OF m] by simp
    moreover have "string_of_nat n \<noteq> []" unfolding s by simp
    ultimately show ?thesis by blast
  qed
qed

lemma map_of_find:
  "map_of (map (\<lambda>md. (key md, val md)) xs) i = map_option val (List.find (\<lambda>md. key md = i) xs)"
  by (induction xs) auto

lemma modules_of_find:
  "modules_of graph i
     = map_option (\<lambda>md. (code md, mapping md)) (List.find (\<lambda>md. id md = i) (rev graph))"
  unfolding modules_of_def rev_map by (rule map_of_find)

lemma loader_once:
  "occurrences ''require(0)'' (''\<newline>'' @
    ''    (function(modules) {\<newline>'' @
    ''      function require(id) {\<newline>'' @
    ''        const [fn, mapping] = modules[id];\<newline>'' @
    ''\<newline>'' @
    ''        function localRequire(name) {\<newline>'' @
    ''          return require(mapping[name]);\<newline>'' @
    ''        }\<newline>'' @
    ''\<newline>'' @
    ''        const module = { exports : {} };\<newline>'' @
    ''\<newline>'' @
    ''        fn(localRequire, module, module.exports);\<newline>'' @
    ''\<newline>'' @
    ''        return module.exports;\<newline>'' @
    ''      }\<newline>'' @
    ''\<newline>'' @
    ''      require(0);\<newline>'' @
    ''    })({'') = 1"
  by code_simp

text \<open>
  C5. For every graph, \<^verbatim>\<open>bundle(graph)\<close> is the text of one self-invoking function: the
  loader, spelled out below, applied to an object literal. The loader defines
  \<^verbatim>\<open>require(id)\<close>, which takes the pair \<^verbatim>\<open>[fn, mapping]\<close> of the module, defines the
  per-module \<^verbatim>\<open>localRequire\<close>, builds \<^verbatim>\<open>module\<close>, calls \<^verbatim>\<open>fn\<close> and returns
  \<^verbatim>\<open>module.exports\<close>; it ends with the call \<^verbatim>\<open>require(0)\<close>, which the loader's text has at
  one place only. The object literal has, for each module of the graph in order, the
  id in decimal digits as key and a pair: the module's code inside a function of the
  three parameters \<^verbatim>\<open>require, module, exports\<close>, and the serialized mapping. Read as an
  object, the literal gives under an id the code and mapping of the last module of the
  graph with that id.
\<close>

theorem bundle_text_shape:
  "(let loader =
      ''\<newline>'' @
      ''    (function(modules) {\<newline>'' @
      ''      function require(id) {\<newline>'' @
      ''        const [fn, mapping] = modules[id];\<newline>'' @
      ''\<newline>'' @
      ''        function localRequire(name) {\<newline>'' @
      ''          return require(mapping[name]);\<newline>'' @
      ''        }\<newline>'' @
      ''\<newline>'' @
      ''        const module = { exports : {} };\<newline>'' @
      ''\<newline>'' @
      ''        fn(localRequire, module, module.exports);\<newline>'' @
      ''\<newline>'' @
      ''        return module.exports;\<newline>'' @
      ''      }\<newline>'' @
      ''\<newline>'' @
      ''      require(0);\<newline>'' @
      ''    })({''
    in bundle_text stringify graph =
         loader @
         concat (map (\<lambda>md.
           string_of_nat (id md) @
           '': [\<newline>'' @
           ''      function (require, module, exports) {\<newline>'' @
           ''        '' @ code md @ ''\<newline>'' @
           ''      },\<newline>'' @
           ''      '' @ stringify (mapping md) @ '',\<newline>'' @
           ''    ],'') graph) @
         ''})\<newline>  '' \<and>
       occurrences ''require(0)'' loader = 1) \<and>
   (\<forall>n. decimal_value (string_of_nat n) = n \<and>
        list_all (\<lambda>c. c \<in> set ''0123456789'') (string_of_nat n) \<and> string_of_nat n \<noteq> []) \<and>
   (\<forall>i. modules_of graph i
      = map_option (\<lambda>md. (code md, mapping md)) (List.find (\<lambda>md. id md = i) (rev graph)))"
proof -
  have shape: "bundle_text stringify graph =
         (''\<newline>'' @
      ''    (function(modules) {\<newline>'' @
      ''      function require(id) {\<newline>'' @
      ''        const [fn, mapping] = modules[id];\<newline>'' @
      ''\<newline>'' @
      ''        function localRequire(name) {\<newline>'' @
      ''          return require(mapping[name]);\<newline>'' @
      ''        }\<newline>'' @
      ''\<newline>'' @
      ''        const module = { exports : {} };\<newline>'' @
      ''\<newline>'' @
      ''        fn(localRequire, module, module.exports);\<newline>'' @
      ''\<newline>'' @
      ''        return module.exports;\<newline>'' @
      ''      }\<newline>'' @
      ''\<newline>'' @
      ''      require(0);\<newline>'' @
      ''    })({'') @
         concat (map (\<lambda>md.
           string_of_nat (id md) @
           '': [\<newline>'' @
           ''      function (require, module, exports) {\<newline>'' @
           ''        '' @ code md @ ''\<newline>'' @
           ''      },\<newline>'' @
           ''      '' @ stringify (mapping md) @ '',\<newline>'' @
           ''    ],'') graph) @
         ''})\<newline>  ''"
    by (simp add: bundle_text_def require_text_def fold_append_concat module_text_def)
  have dec: "\<forall>n. decimal_value (string_of_nat n) = n \<and>
        list_all (\<lambda>c. c \<in> set ''0123456789'') (string_of_nat n) \<and> string_of_nat n \<noteq> []"
    using string_of_nat_decimal by blast
  have reg: "\<forall>i. modules_of graph i
      = map_option (\<lambda>md. (code md, mapping md)) (List.find (\<lambda>md. id md = i) (rev graph))"
    using modules_of_find by blast
  show ?thesis
    unfolding Let_def by (intro conjI shape loader_once dec reg)
qed

subsection \<open>The entry module\<close>

lemma modules_of_first:
  assumes "graph \<noteq> []" "\<And>j. j < length graph \<Longrightarrow> id (graph ! j) = ID + j"
  shows "modules_of graph ID = Some (code (graph ! 0), mapping (graph ! 0))"
proof -
  let ?xs = "map (\<lambda>md. (id md, (code md, mapping md))) graph"
  have "map fst ?xs = map id graph" by (simp add: comp_def)
  also have "\<dots> = [ID..<ID + length graph]" by (rule nth_equalityI) (use assms(2) in simp_all)
  finally have d: "distinct (map fst ?xs)" by simp
  have "map_of (rev ?xs) = map_of ?xs" by (rule map_of_rev_distinct[OF d])
  moreover have "map_of ?xs ID = Some (code (graph ! 0), mapping (graph ! 0))"
    using assms(1) assms(2)[of 0] by (cases graph) simp_all
  ultimately show ?thesis by (simp add: modules_of_def)
qed

lemma modules_of_no_zero:
  assumes "0 < ID" "\<And>j. j < length graph \<Longrightarrow> id (graph ! j) = ID + j"
  shows "modules_of graph 0 = None"
proof -
  have "\<And>md. md \<in> set graph \<Longrightarrow> id md \<noteq> 0"
  proof -
    fix md assume "md \<in> set graph"
    then obtain j where "j < length graph" "graph ! j = md" by (auto simp: in_set_conv_nth)
    with assms show "id md \<noteq> 0" by fastforce
  qed
  then have "List.find (\<lambda>md. id md = 0) (rev graph) = None"
    by (simp add: find_none_iff_all)
  then show ?thesis by (simp add: modules_of_find)
qed

lemma require_rt_absent: "modules i = None \<Longrightarrow> require_rt exec n modules (Some i) s = None"
  by (cases n) simp_all

text \<open>
  C3, as the code has it. In every graph that \<^verbatim>\<open>createGraph(entry)\<close> returns, the Asset of
  the entry file is the first, and its id is the value the counter had when the call
  began: 0 for the first call made in a process, and not for a later one. The bundle's
  text is the loader, which ends with the call \<^verbatim>\<open>require(0)\<close>, applied to the registry, and
  the registry holds the entry's code and mapping under the entry's id. When the call
  began with the counter at 0, running the bundle is running the entry's module
  function on a new \<^verbatim>\<open>module\<close> and \<^verbatim>\<open>exports\<close> object, with the result of that run or with
  none when that run gives none. When the call began with another value, the registry
  has no module 0 and running the bundle throws.
\<close>

theorem entry_has_start_counter_id:
  assumes "createGraph w entry ID = Some (Inr (graph, ID'))"
  shows "graph \<noteq> [] \<and> filename (graph ! 0) = entry \<and> id (graph ! 0) = ID \<and>
         bundle_text stringify graph =
           (''\<newline>'' @
            ''    (function(modules) {\<newline>'' @
            ''      function require(id) {\<newline>'' @
            ''        const [fn, mapping] = modules[id];\<newline>'' @
            ''\<newline>'' @
            ''        function localRequire(name) {\<newline>'' @
            ''          return require(mapping[name]);\<newline>'' @
            ''        }\<newline>'' @
            ''\<newline>'' @
            ''        const module = { exports : {} };\<newline>'' @
            ''\<newline>'' @
            ''        fn(localRequire, module, module.exports);\<newline>'' @
            ''\<newline>'' @
            ''        return module.exports;\<newline>'' @
            ''      }\<newline>'' @
            ''\<newline>'' @
            ''      require(0);\<newline>'' @
            ''    })({'') @
           concat (map (module_text stringify) graph) @ ''})\<newline>  '' \<and>
         modules_of graph ID = Some (code (graph ! 0), mapping (graph ! 0)) \<and>
         (ID = 0 \<longrightarrow>
            (\<forall>exec n s. run_bundle exec (Suc n) graph s =
               (case run_body (local_require exec n (modules_of graph) (mapping (graph ! 0)))
                       (exec (code (graph ! 0)) (Suc (length (heap s))) (length (heap s)))
                       (enter 0 (code (graph ! 0)) s) of
                  None \<Rightarrow> None
                | Some s' \<Rightarrow> Some (module_exports s' (Suc (length (heap s))), s')))) \<and>
         (0 < ID \<longrightarrow> modules_of graph 0 = None \<and> (\<forall>exec n s. run_bundle exec n graph s = None))"
proof -
  note inv = createGraph_inv[OF assms]
  have ne: "graph \<noteq> []" and fn: "filename (graph ! 0) = entry"
    by (rule graph_inv_final(1,2)[OF inv])+
  have ids: "\<And>j. j < length graph \<Longrightarrow> id (graph ! j) = ID + j"
    by (rule graph_inv_final(4)[OF inv])
  have id0: "id (graph ! 0) = ID" using ids[of 0] ne by simp
  have shape: "bundle_text stringify graph =
           (''\<newline>'' @
            ''    (function(modules) {\<newline>'' @
            ''      function require(id) {\<newline>'' @
            ''        const [fn, mapping] = modules[id];\<newline>'' @
            ''\<newline>'' @
            ''        function localRequire(name) {\<newline>'' @
            ''          return require(mapping[name]);\<newline>'' @
            ''        }\<newline>'' @
            ''\<newline>'' @
            ''        const module = { exports : {} };\<newline>'' @
            ''\<newline>'' @
            ''        fn(localRequire, module, module.exports);\<newline>'' @
            ''\<newline>'' @
            ''        return module.exports;\<newline>'' @
            ''      }\<newline>'' @
            ''\<newline>'' @
            ''      require(0);\<newline>'' @
            ''    })({'') @
           concat (map (module_text stringify) graph) @ ''})\<newline>  ''"
    by (simp add: bundle_text_def require_text_def fold_append_concat)
  have reg: "modules_of graph ID = Some (code (graph ! 0), mapping (graph ! 0))"
    by (rule modules_of_first[OF ne ids])
  have zero: "ID = 0 \<longrightarrow>
            (\<forall>exec n s. run_bundle exec (Suc n) graph s =
               (case run_body (local_require exec n (modules_of graph) (mapping (graph ! 0)))
                       (exec (code (graph ! 0)) (Suc (length (heap s))) (length (heap s)))
                       (enter 0 (code (graph ! 0)) s) of
                  None \<Rightarrow> None
                | Some s' \<Rightarrow> Some (module_exports s' (Suc (length (heap s))), s')))"
  proof (intro impI allI)
    fix exec n s assume "ID = 0"
    with reg have r0: "modules_of graph 0 = Some (code (graph ! 0), mapping (graph ! 0))" by simp
    show "run_bundle exec (Suc n) graph s =
               (case run_body (local_require exec n (modules_of graph) (mapping (graph ! 0)))
                       (exec (code (graph ! 0)) (Suc (length (heap s))) (length (heap s)))
                       (enter 0 (code (graph ! 0)) s) of
                  None \<Rightarrow> None
                | Some s' \<Rightarrow> Some (module_exports s' (Suc (length (heap s))), s'))"
      unfolding run_bundle_def require_rt_Suc r0 by simp
  qed
  have pos: "0 < ID \<longrightarrow> modules_of graph 0 = None \<and> (\<forall>exec n s. run_bundle exec n graph s = None)"
  proof
    assume "0 < ID"
    from modules_of_no_zero[OF this ids] have z: "modules_of graph 0 = None" .
    then show "modules_of graph 0 = None \<and> (\<forall>exec n s. run_bundle exec n graph s = None)"
      by (simp add: run_bundle_def require_rt_absent)
  qed
  show ?thesis by (intro conjI ne fn id0 shape reg zero pos)
qed

lemma diamond_bundle_run:
  "run_bundle diamond_exec (Suc 2) diamond_graph rt_empty = Some (Ref 0, diamond_final)"
  by code_simp

lemma diamond_second_run:
  "createGraph diamond ''/app/entry.js'' 5 = Some (Inr (diamond_graph_second, 10))"
  by code_simp

theorem entry_has_start_counter_id_witness:
  "createGraph diamond ''/app/entry.js'' 0 = Some (Inr (diamond_graph, 5)) \<and>
   filename (diamond_graph ! 0) = ''/app/entry.js'' \<and> id (diamond_graph ! 0) = 0 \<and>
   modules_of diamond_graph 0 = Some (code (diamond_graph ! 0), mapping (diamond_graph ! 0)) \<and>
   run_bundle diamond_exec (Suc 2) diamond_graph rt_empty = Some (Ref 0, diamond_final) \<and>
   (case run_body (local_require diamond_exec 2 (modules_of diamond_graph) (mapping (diamond_graph ! 0)))
           (diamond_exec (code (diamond_graph ! 0)) (Suc (length (heap rt_empty))) (length (heap rt_empty)))
           (enter 0 (code (diamond_graph ! 0)) rt_empty) of
      None \<Rightarrow> None
    | Some s' \<Rightarrow> Some (module_exports s' (Suc (length (heap rt_empty))), s'))
     = Some (Ref 0, diamond_final) \<and>
   createGraph diamond ''/app/entry.js'' 5 = Some (Inr (diamond_graph_second, 10)) \<and>
   id (diamond_graph_second ! 0) = 5 \<and>
   modules_of diamond_graph_second 5
     = Some (code (diamond_graph_second ! 0), mapping (diamond_graph_second ! 0)) \<and>
   modules_of diamond_graph_second 0 = None \<and>
   run_bundle diamond_exec 3 diamond_graph_second rt_empty = None"
proof -
  note res = entry_has_start_counter_id[OF diamond_run, of "\<lambda>m. []"]
  note fn = res[THEN conjunct2, THEN conjunct1]
  note id0 = res[THEN conjunct2, THEN conjunct2, THEN conjunct1]
  note reg = res[THEN conjunct2, THEN conjunct2, THEN conjunct2, THEN conjunct2, THEN conjunct1]
  note exe = res[THEN conjunct2, THEN conjunct2, THEN conjunct2, THEN conjunct2, THEN conjunct2,
      THEN conjunct1, rule_format, OF refl, of diamond_exec 2 rt_empty]
  have run: "(case run_body (local_require diamond_exec 2 (modules_of diamond_graph) (mapping (diamond_graph ! 0)))
           (diamond_exec (code (diamond_graph ! 0)) (Suc (length (heap rt_empty))) (length (heap rt_empty)))
           (enter 0 (code (diamond_graph ! 0)) rt_empty) of
      None \<Rightarrow> None
    | Some s' \<Rightarrow> Some (module_exports s' (Suc (length (heap rt_empty))), s'))
     = Some (Ref 0, diamond_final)"
    using exe diamond_bundle_run by simp
  note res2 = entry_has_start_counter_id[OF diamond_second_run, of "\<lambda>m. []"]
  note id5 = res2[THEN conjunct2, THEN conjunct2, THEN conjunct1]
  note reg5 = res2[THEN conjunct2, THEN conjunct2, THEN conjunct2, THEN conjunct2, THEN conjunct1]
  have pos: "0 < (5::nat)" by simp
  note late = res2[THEN conjunct2, THEN conjunct2, THEN conjunct2, THEN conjunct2, THEN conjunct2,
      THEN conjunct2, rule_format, OF pos]
  note no0 = late[THEN conjunct1]
  note norun = late[THEN conjunct2, rule_format, of diamond_exec 3 rt_empty]
  show ?thesis
    by (intro conjI diamond_run fn id0 reg diamond_bundle_run run diamond_second_run id5 reg5 no0 norun)
qed

text \<open>
  C3 as stated fails for the second call in one process: the first build of the diamond
  leaves the counter at 5, the entry of the second build has id 5, the registry has no
  module 0, and the bundle's call \<^verbatim>\<open>require(0)\<close> throws.
\<close>

theorem later_call_entry_not_zero:
  "createGraph diamond ''/app/entry.js'' ID_initial = Some (Inr (diamond_graph, 5)) \<and>
   createGraph diamond ''/app/entry.js'' 5 = Some (Inr (diamond_graph_second, 10)) \<and>
   filename (diamond_graph_second ! 0) = ''/app/entry.js'' \<and>
   id (diamond_graph_second ! 0) = 5 \<and>
   modules_of diamond_graph_second 0 = None \<and>
   run_bundle diamond_exec 3 diamond_graph_second rt_empty = None"
proof -
  have "createGraph diamond ''/app/entry.js'' ID_initial = Some (Inr (diamond_graph, 5))"
    using diamond_run by (simp add: ID_initial_def)
  moreover have "createGraph diamond ''/app/entry.js'' 5 = Some (Inr (diamond_graph_second, 10))"
    by code_simp
  moreover have "filename (diamond_graph_second ! 0) = ''/app/entry.js''"
    "id (diamond_graph_second ! 0) = 5"
    by (simp_all add: diamond_graph_second_def diamond_graph_def shift_asset_def)
  moreover have "modules_of diamond_graph_second 0 = None" by code_simp
  moreover have "run_bundle diamond_exec 3 diamond_graph_second rt_empty = None" by code_simp
  ultimately show ?thesis by (intro conjI)
qed

end
